theory Spec2Isabelle
  imports Complex_Main "HOL-Library.Sublist"
begin

section \<open>Signal RAG bot: chunking, retrieval and the resilience layer\<close>

text \<open>
  A shallow embedding of the Python sources \<^verbatim>\<open>custom_rag.py\<close>, \<^verbatim>\<open>security.py\<close>,
  \<^verbatim>\<open>error_handling.py\<close>, \<^verbatim>\<open>monitoring.py\<close> and \<^verbatim>\<open>signal_bot_rag.py\<close>.
  Wall-clock readings (\<^verbatim>\<open>time.time()\<close>) and delays are real numbers. A wrapped
  operation is a function from a world state to an outcome and the next world state; the
  clock is read off the world state.
\<close>

subsection \<open>Wrapped operations\<close>

text \<open>
  An operation handed to \<^verbatim>\<open>CircuitBreaker.call\<close> or \<^verbatim>\<open>retry_with_backoff\<close> has type
  \<open>'w \<Rightarrow> ('e + 'a) \<times> 'w\<close>: from the world before the call to the raised exception
  (\<open>Inl\<close>) or the returned value (\<open>Inr\<close>) and the world after it. \<open>scripted\<close> is such an
  operation for concrete runs: its world is the clock reading and the outcomes still to
  come, each call takes one second, and an exhausted script raises \<open>d\<close>. \<open>sleep_script\<close>
  is \<^verbatim>\<open>time.sleep\<close> on that world.
\<close>

fun scripted :: "'e \<Rightarrow> real \<times> ('e + 'a) list \<Rightarrow> ('e + 'a) \<times> (real \<times> ('e + 'a) list)" where
  "scripted d (t, []) = (Inl d, (t, []))"
| "scripted d (t, r # rs) = (r, (t + 1, rs))"

fun sleep_script :: "real \<Rightarrow> real \<times> 'r list \<Rightarrow> real \<times> 'r list" where
  "sleep_script delay (t, rs) = (t + delay, rs)"

subsection \<open>Python strings\<close>

text \<open>
  A Python \<^verbatim>\<open>str\<close> is a sequence of Unicode code points, here a list of naturals, so
  that \<^verbatim>\<open>len\<close> counts what Python counts. \<open>str\<close> embeds an ASCII literal.
  \<open>isspace\<close> is Python's \<^verbatim>\<open>str.isspace\<close> on one character, the set that
  \<^verbatim>\<open>str.strip()\<close> removes from both ends. \<open>slice\<close> is \<^verbatim>\<open>s[start:stop]\<close> with
  Python's treatment of negative and out-of-range bounds; \<open>rfind\<close> is \<^verbatim>\<open>s.rfind(c)\<close>
  for a single character, \<open>-1\<close> when it is absent; \<open>contains\<close> is \<^verbatim>\<open>pattern in text\<close>.
\<close>

type_synonym pystr = "nat list"

definition str :: "string \<Rightarrow> pystr" where
  "str s = map of_char s"

definition isspace :: "nat \<Rightarrow> bool" where
  "isspace c \<longleftrightarrow>
     (9 \<le> c \<and> c \<le> 13) \<or> (28 \<le> c \<and> c \<le> 32) \<or> c = 133 \<or> c = 160 \<or> c = 5760 \<or>
     (8192 \<le> c \<and> c \<le> 8202) \<or> c = 8232 \<or> c = 8233 \<or> c = 8239 \<or> c = 8287 \<or> c = 12288"

definition strip :: "pystr \<Rightarrow> pystr" where
  "strip s = rev (dropWhile isspace (rev (dropWhile isspace s)))"

definition slice_bound :: "int \<Rightarrow> int \<Rightarrow> nat" where
  "slice_bound n i = nat (if i < 0 then max (i + n) 0 else min i n)"

definition slice :: "'a list \<Rightarrow> int \<Rightarrow> int \<Rightarrow> 'a list" where
  "slice s start stop =
     (let n = int (length s); lo = slice_bound n start; hi = slice_bound n stop
      in take (hi - lo) (drop lo s))"

fun rfind_from :: "'a \<Rightarrow> 'a list \<Rightarrow> int \<Rightarrow> int \<Rightarrow> int" where
  "rfind_from c [] i found = found"
| "rfind_from c (x # xs) i found = rfind_from c xs (i + 1) (if x = c then i else found)"

definition rfind :: "'a list \<Rightarrow> 'a \<Rightarrow> int" where
  "rfind s c = rfind_from c s 0 (-1)"

fun contains :: "'a list \<Rightarrow> 'a list \<Rightarrow> bool" where
  "contains pattern [] = (pattern = [])"
| "contains pattern (x # xs) = (prefix pattern (x # xs) \<or> contains pattern xs)"

subsection \<open>sanitize_message (security.py)\<close>

text \<open>
  The function raises \<^verbatim>\<open>ValueError\<close> with one of four messages; the constructors name
  them: \<open>EmptyInput\<close> for "Empty message", \<open>TooLong\<close> for "Message too long (max 2000
  characters)", \<open>InvalidChars\<close> for "Invalid characters detected" and \<open>DangerousPattern\<close>
  for "Potentially dangerous input detected". \<open>control_char\<close> is the character class
  \<^verbatim>\<open>[\x00-\x08\x0B\x0C\x0E-\x1F]\<close>. The patterns are \<^verbatim>\<open>;\<close>, \<^verbatim>\<open>&&\<close>, \<^verbatim>\<open>||\<close>, the
  backquote, \<^verbatim>\<open>$(\<close> and \<^verbatim>\<open>${\<close>, as code points.
\<close>

datatype sanitize_error = EmptyInput | TooLong | InvalidChars | DangerousPattern

definition control_char :: "nat \<Rightarrow> bool" where
  "control_char c \<longleftrightarrow> c \<le> 8 \<or> c = 11 \<or> c = 12 \<or> (14 \<le> c \<and> c \<le> 31)"

definition dangerous_patterns :: "pystr list" where
  "dangerous_patterns = [[59], [38, 38], [124, 124], [96], [36, 40], [36, 123]]"

definition sanitize_message :: "pystr \<Rightarrow> sanitize_error + pystr" where
  "sanitize_message text0 =
     (let text = strip text0
      in if text = [] then Inl EmptyInput
         else if length text > 2000 then Inl TooLong
         else if list_ex control_char text then Inl InvalidChars
         else if list_ex (\<lambda>pattern. contains pattern text) dangerous_patterns
              then Inl DangerousPattern
         else Inr text)"

text \<open>
  The ASCII control characters, in the words of the specification: the codes 0 to 31 and
  DEL (127). Tab, LF and CR are 9, 10 and 13.
\<close>

definition ascii_control :: "nat \<Rightarrow> bool" where
  "ascii_control c \<longleftrightarrow> c < 32 \<or> c = 127"

subsection \<open>CustomRAG.chunk_text (custom_rag.py)\<close>

text \<open>
  \<open>chunk_step\<close> is one pass through the body of the \<^verbatim>\<open>while start < text_len\<close> loop: it
  gives the chunk that is appended and the next value of \<^verbatim>\<open>start\<close>. The characters \<open>46\<close>
  and \<open>10\<close> are the full stop and the newline. The test
  \<^verbatim>\<open>break_point > chunk_size * 0.5\<close> compares an integer with half an integer and is written
  \<open>2 * break_point > chunk_size\<close>. The loop has no bound of its own, so \<open>chunk_loop\<close>
  takes fuel: \<open>None\<close> means that the loop is still running after that many passes.
  \<^verbatim>\<open>start\<close> can become negative, and then the slice follows Python's rule for negative
  bounds.
\<close>

definition chunk_step :: "pystr \<Rightarrow> int \<Rightarrow> int \<Rightarrow> int \<Rightarrow> pystr \<times> int" where
  "chunk_step text chunk_size overlap start =
     (let text_len = int (length text);
          end0 = start + chunk_size;
          chunk = slice text start end0
      in if end0 < text_len then
           (let last_period = rfind chunk 46;
                last_newline = rfind chunk 10;
                break_point = max last_period last_newline
            in if 2 * break_point > chunk_size
               then (strip (slice chunk 0 (break_point + 1)), start + break_point + 1 - overlap)
               else (strip chunk, end0 - overlap))
         else (strip chunk, end0 - overlap))"

fun chunk_loop :: "nat \<Rightarrow> pystr \<Rightarrow> int \<Rightarrow> int \<Rightarrow> int \<Rightarrow> pystr list \<Rightarrow> pystr list option" where
  "chunk_loop 0 text chunk_size overlap start chunks = None"
| "chunk_loop (Suc fuel) text chunk_size overlap start chunks =
     (if start < int (length text) then
        (case chunk_step text chunk_size overlap start of
           (chunk, start1) \<Rightarrow>
             chunk_loop fuel text chunk_size overlap start1 (chunks @ [chunk]))
      else Some chunks)"

definition chunk_text :: "nat \<Rightarrow> pystr \<Rightarrow> int \<Rightarrow> int \<Rightarrow> pystr list option" where
  "chunk_text fuel text chunk_size overlap = chunk_loop fuel text chunk_size overlap 0 []"

subsection \<open>CustomRAG.search (custom_rag.py)\<close>

text \<open>
  The index is a \<^verbatim>\<open>faiss.IndexFlatL2\<close>. \<open>index_search\<close> is its \<^verbatim>\<open>search\<close> for one query, as
  the library documents it: the stored vectors are ranked by squared Euclidean distance to
  the query, nearest first and ties in insertion order, and exactly \<open>k\<close> pairs of distance
  and label come back; when fewer than \<open>k\<close> vectors are stored, the missing places hold the
  label \<open>-1\<close> and the largest single-precision value. The Python wrapper of the library
  asserts \<open>k > 0\<close>. Distances are taken over the reals, where the library computes in
  single precision.
  \<open>search\<close> starts from the embedded query, the result of the embedding service. It joins
  each label to \<^verbatim>\<open>self.chunks[idx]\<close> with Python's indexing: a negative index counts from
  the end, an index out of range raises \<^verbatim>\<open>IndexError\<close>. The field \<open>chunk_body\<close> is
  the key \<^verbatim>\<open>'text'\<close> of a chunk.
\<close>

record chunk =
  chunk_body :: pystr
  source :: pystr
  category :: pystr
  chunk_id :: nat

datatype py_error = IndexError | AssertionError

definition flt_max :: real where
  "flt_max = (2 - 1 / 2 ^ 23) * 2 ^ 127"

definition l2_distance :: "real list \<Rightarrow> real list \<Rightarrow> real" where
  "l2_distance x y = sum_list (map (\<lambda>(a, b). (a - b)\<^sup>2) (zip x y))"

definition index_search ::
  "real list list \<Rightarrow> real list \<Rightarrow> int \<Rightarrow> py_error + (real \<times> int) list" where
  "index_search vectors query k =
     (if k \<le> 0 then Inl AssertionError
      else
        (let ranked = sort_key fst (map (\<lambda>i. (l2_distance query (vectors ! i), int i))
                                         [0..<length vectors]);
             found = take (nat k) ranked
         in Inr (found @ replicate (nat k - length found) (flt_max, - 1))))"

definition getitem :: "'a list \<Rightarrow> int \<Rightarrow> py_error + 'a" where
  "getitem xs idx =
     (if 0 \<le> idx \<and> idx < int (length xs) then Inr (xs ! nat idx)
      else if idx < 0 \<and> - int (length xs) \<le> idx then Inr (xs ! nat (idx + int (length xs)))
      else Inl IndexError)"

fun join_results :: "chunk list \<Rightarrow> (real \<times> int) list \<Rightarrow> (chunk \<times> real) list
    \<Rightarrow> py_error + (chunk \<times> real) list" where
  "join_results chunks [] results = Inr results"
| "join_results chunks ((distance, idx) # rest) results =
     (case getitem chunks idx of
        Inl err \<Rightarrow> Inl err
      | Inr c \<Rightarrow> join_results chunks rest (results @ [(c, distance)]))"

definition search :: "chunk list \<Rightarrow> real list list \<Rightarrow> real list \<Rightarrow> int
    \<Rightarrow> py_error + (chunk \<times> real) list" where
  "search chunks vectors query_embedding k =
     (case index_search vectors query_embedding k of
        Inl err \<Rightarrow> Inl err
      | Inr pairs \<Rightarrow> join_results chunks pairs [])"

text \<open>Two chunks for concrete runs.\<close>

definition chunk_a :: chunk where
  "chunk_a = \<lparr>chunk_body = str ''Drones are used for reconnaissance.'', source = str ''a.md'',
              category = str ''Tech'', chunk_id = 0\<rparr>"

definition chunk_b :: chunk where
  "chunk_b = \<lparr>chunk_body = str ''Procurement follows Article 346.'', source = str ''a.md'',
              category = str ''Legal'', chunk_id = 1\<rparr>"

subsection \<open>retry_with_backoff (error_handling.py)\<close>

text \<open>
  The \<^verbatim>\<open>for attempt in range(max_retries + 1)\<close> loop, by recursion on the number of
  iterations left. \<open>retryable\<close> is membership of the exception in \<^verbatim>\<open>retry_exceptions\<close>.
  \<open>sleep\<close> is the effect of \<^verbatim>\<open>time.sleep\<close> on the world; the delays slept are also
  logged in order. \<^verbatim>\<open>time.sleep\<close> raises \<^verbatim>\<open>ValueError\<close> on a negative delay. A loop that
  runs out (only when \<^verbatim>\<open>max_retries < 0\<close>) falls through to the final
  \<^verbatim>\<open>if last_exception\<close> and returns \<^verbatim>\<open>None\<close>, here \<open>Inr None\<close>.
\<close>

datatype 'e retry_error = Raised 'e | SleepValueError

fun retry_loop ::
  "(real \<Rightarrow> 'w \<Rightarrow> 'w) \<Rightarrow> ('w \<Rightarrow> ('e + 'a) \<times> 'w) \<Rightarrow> int \<Rightarrow> real \<Rightarrow> ('e \<Rightarrow> bool)
     \<Rightarrow> nat \<Rightarrow> nat \<Rightarrow> 'e option \<Rightarrow> 'w \<Rightarrow> real list
     \<Rightarrow> ('e retry_error + 'a option) \<times> 'w \<times> real list" where
  "retry_loop sleep func max_retries base_delay retryable 0 attempt last_exception w slept =
     (case last_exception of
        Some e \<Rightarrow> (Inl (Raised e), w, slept)
      | None \<Rightarrow> (Inr None, w, slept))"
| "retry_loop sleep func max_retries base_delay retryable (Suc n) attempt last_exception w slept =
     (case func w of
        (Inr result, w1) \<Rightarrow> (Inr (Some result), w1, slept)
      | (Inl e, w1) \<Rightarrow>
          if retryable e then
            (if int attempt < max_retries then
               (let delay = base_delay * 2 ^ attempt
                in if delay < 0 then (Inl SleepValueError, w1, slept)
                   else retry_loop sleep func max_retries base_delay retryable n (Suc attempt)
                          (Some e) (sleep delay w1) (slept @ [delay]))
             else (Inl (Raised e), w1, slept))
          else (Inl (Raised e), w1, slept))"

definition retry_with_backoff ::
  "(real \<Rightarrow> 'w \<Rightarrow> 'w) \<Rightarrow> ('w \<Rightarrow> ('e + 'a) \<times> 'w) \<Rightarrow> int \<Rightarrow> real \<Rightarrow> ('e \<Rightarrow> bool) \<Rightarrow> 'w
     \<Rightarrow> ('e retry_error + 'a option) \<times> 'w \<times> real list" where
  "retry_with_backoff sleep func max_retries base_delay retryable w =
     retry_loop sleep func max_retries base_delay retryable (nat (max_retries + 1)) 0 None w []"

text \<open>
  The outcomes of \<open>k\<close> successive calls of the operation, the first one being attempt number
  \<open>attempt\<close>, with the backoff sleep between one call and the next.
\<close>

fun attempts ::
  "(real \<Rightarrow> 'w \<Rightarrow> 'w) \<Rightarrow> ('w \<Rightarrow> ('e + 'a) \<times> 'w) \<Rightarrow> real \<Rightarrow> nat \<Rightarrow> nat \<Rightarrow> 'w
     \<Rightarrow> ('e + 'a) list" where
  "attempts sleep func base_delay 0 attempt w = []"
| "attempts sleep func base_delay (Suc k) attempt w =
     (case func w of
        (r, w1) \<Rightarrow> r # attempts sleep func base_delay k (Suc attempt)
                         (sleep (base_delay * 2 ^ attempt) w1))"

subsection \<open>AnomalyDetector (monitoring.py)\<close>

text \<open>
  The two histories are \<^verbatim>\<open>deque(maxlen=1000)\<close>: appending to a full deque drops its
  oldest element. \<open>mean\<close> and \<open>stdev\<close> are \<^verbatim>\<open>statistics.mean\<close> and
  \<^verbatim>\<open>statistics.stdev\<close> (the sample deviation, with \<open>n - 1\<close> in the denominator), computed
  over the reals. Both need at least two data points, which the test on the history size
  guarantees.
\<close>

record anomaly_detector =
  message_lengths :: "int list"
  message_times :: "real list"

definition AnomalyDetector :: anomaly_detector where
  "AnomalyDetector = \<lparr>message_lengths = [], message_times = []\<rparr>"

definition deque_append :: "nat \<Rightarrow> 'a list \<Rightarrow> 'a \<Rightarrow> 'a list" where
  "deque_append maxlen q x = (if length q \<ge> maxlen then tl (q @ [x]) else q @ [x])"

definition record_message_length :: "int \<Rightarrow> anomaly_detector \<Rightarrow> anomaly_detector" where
  "record_message_length len d =
     d\<lparr>message_lengths := deque_append 1000 (message_lengths d) len\<rparr>"

definition mean :: "int list \<Rightarrow> real" where
  "mean xs = real_of_int (sum_list xs) / real (length xs)"

definition stdev :: "int list \<Rightarrow> real" where
  "stdev xs =
     sqrt (sum_list (map (\<lambda>x. (real_of_int x - mean xs)\<^sup>2) xs) / real (length xs - 1))"

definition is_anomalous_length :: "int \<Rightarrow> real \<Rightarrow> anomaly_detector \<Rightarrow> bool" where
  "is_anomalous_length len threshold_std d =
     (if length (message_lengths d) < 10 then False
      else \<bar>real_of_int len - mean (message_lengths d)\<bar>
             > threshold_std * stdev (message_lengths d))"

subsection \<open>RateLimiter (security.py)\<close>

text \<open>
  \<^verbatim>\<open>user_messages\<close> is a \<^verbatim>\<open>defaultdict(deque)\<close>: a total map from identities to
  timestamp lists, empty by default. \<open>now\<close> is the reading of \<^verbatim>\<open>time.time()\<close>. The
  pruning loop pops from the left while the head is older than one hour.
\<close>

type_synonym 'k rate_limiter = "'k \<Rightarrow> real list"

definition RateLimiter :: "'k rate_limiter" where
  "RateLimiter = (\<lambda>user_id. [])"

definition check_rate_limit :: "real \<Rightarrow> 'k \<Rightarrow> 'k rate_limiter \<Rightarrow> bool \<times> 'k rate_limiter" where
  "check_rate_limit now user_id user_messages =
     (let window_1min = now - 60;
          window_1hour = now - 3600;
          messages = dropWhile (\<lambda>ts. ts < window_1hour) (user_messages user_id);
          recent_1min = length (filter (\<lambda>ts. ts > window_1min) messages);
          recent_1hour = length messages
      in if recent_1min \<ge> 10 then (False, user_messages(user_id := messages))
         else if recent_1hour \<ge> 100 then (False, user_messages(user_id := messages))
         else (True, user_messages(user_id := messages @ [now])))"

text \<open>Consecutive calls for one identity at the given clock readings.\<close>

fun check_seq :: "'k \<Rightarrow> real list \<Rightarrow> 'k rate_limiter \<Rightarrow> bool list \<times> 'k rate_limiter" where
  "check_seq user_id [] m = ([], m)"
| "check_seq user_id (t # ts) m =
     (case check_rate_limit t user_id m of
        (b, m1) \<Rightarrow> (case check_seq user_id ts m1 of (bs, m2) \<Rightarrow> (b # bs, m2)))"

subsection \<open>CircuitBreaker (security.py)\<close>

text \<open>
  \<^verbatim>\<open>CircuitBreaker.call\<close> in two phases: \<open>call_check_open\<close> is the test of the
  \<^verbatim>\<open>open\<close> state before the operation runs, \<open>call_try\<close> the
  \<^verbatim>\<open>try/except\<close> around the operation. \<open>TypeError\<close> is what Python raises for
  \<^verbatim>\<open>time.time() - None\<close>.
\<close>

datatype cb_state = Closed | Open | HalfOpen

datatype 'e call_error = CircuitOpenError | TypeError | FuncError 'e

record circuit_breaker =
  failure_count :: int
  failure_threshold :: int
  timeout :: real
  last_failure_time :: "real option"
  state :: cb_state

definition CircuitBreaker :: "int \<Rightarrow> real \<Rightarrow> circuit_breaker" where
  "CircuitBreaker threshold tmo =
     \<lparr>failure_count = 0, failure_threshold = threshold, timeout = tmo,
      last_failure_time = None, state = Closed\<rparr>"

definition call_check_open ::
  "('w \<Rightarrow> real) \<Rightarrow> circuit_breaker \<Rightarrow> 'w \<Rightarrow> 'e call_error + circuit_breaker" where
  "call_check_open clock cb w =
     (if state cb = Open then
        (case last_failure_time cb of
           None \<Rightarrow> Inl TypeError
         | Some t \<Rightarrow>
             if clock w - t > timeout cb then Inr (cb\<lparr>state := HalfOpen\<rparr>)
             else Inl CircuitOpenError)
      else Inr cb)"

definition call_try ::
  "('w \<Rightarrow> real) \<Rightarrow> ('w \<Rightarrow> ('e + 'a) \<times> 'w) \<Rightarrow> circuit_breaker \<Rightarrow> 'w
     \<Rightarrow> ('e call_error + 'a) \<times> circuit_breaker \<times> 'w" where
  "call_try clock func cb w =
     (case func w of
        (Inr result, w') \<Rightarrow>
          (Inr result,
           (if state cb = HalfOpen then cb\<lparr>state := Closed, failure_count := 0\<rparr> else cb),
           w')
      | (Inl e, w') \<Rightarrow>
          (let cb1 = cb\<lparr>failure_count := failure_count cb + 1,
                         last_failure_time := Some (clock w')\<rparr>;
               cb2 = (if failure_count cb1 \<ge> failure_threshold cb1
                      then cb1\<lparr>state := Open\<rparr> else cb1)
           in (Inl (FuncError e), cb2, w')))"

definition call ::
  "('w \<Rightarrow> real) \<Rightarrow> ('w \<Rightarrow> ('e + 'a) \<times> 'w) \<Rightarrow> circuit_breaker \<Rightarrow> 'w
     \<Rightarrow> ('e call_error + 'a) \<times> circuit_breaker \<times> 'w" where
  "call clock func cb w =
     (case call_check_open clock cb w of
        Inl err \<Rightarrow> (Inl err, cb, w)
      | Inr cb1 \<Rightarrow> call_try clock func cb1 w)"

fun call_seq ::
  "('w \<Rightarrow> real) \<Rightarrow> ('w \<Rightarrow> ('e + 'a) \<times> 'w) \<Rightarrow> nat \<Rightarrow> circuit_breaker \<Rightarrow> 'w
     \<Rightarrow> ('e call_error + 'a) list \<times> circuit_breaker \<times> 'w" where
  "call_seq clock func 0 cb w = ([], cb, w)"
| "call_seq clock func (Suc n) cb w =
     (case call clock func cb w of
        (r, cb1, w1) \<Rightarrow>
          (case call_seq clock func n cb1 w1 of
             (rs, cb2, w2) \<Rightarrow> (r # rs, cb2, w2)))"

definition is_failure :: "('e call_error + 'a) \<Rightarrow> bool" where
  "is_failure r = (case r of Inl (FuncError e) \<Rightarrow> True | _ \<Rightarrow> False)"

definition failures :: "('e call_error + 'a) list \<Rightarrow> nat" where
  "failures rs = length (filter is_failure rs)"

subsection \<open>The message pipeline (signal_bot_rag.py)\<close>

text \<open>
  \<open>handle_message\<close> is the body of the \<^verbatim>\<open>for msg in messages\<close> loop of
  \<^verbatim>\<open>process_messages\<close> for one message, \<open>get_rag_response\<close> the function of that name.
  What lies outside the stages in question is a parameter, collected in \<open>env\<close>: the
  activation passphrase, \<^verbatim>\<open>str.lower\<close>, the threat detector
  \<^verbatim>\<open>threat_detector.is_suspicious\<close>, and \<open>generate\<close>, the rest of
  \<^verbatim>\<open>get_rag_response\<close> after the threat check (history, retrieval, prompt and the
  generation call, with its own error handling), which maps the sanitized message, the
  sender and the conversations to the answer and the new conversations.
  Each function returns the stages it went through, in the order in which the code calls
  the components, together with the reply that is sent and the new state.
\<close>

datatype stage = RateChecked bool | Sanitized bool | ThreatChecked bool | Generated

datatype 'r reply =
    Welcome | RateLimitNotice | ResetDone | Help | Info
  | InvalidInput sanitize_error | SuspiciousWarning | Answer 'r

record ('k, 'h, 'r) env =
  passphrase :: pystr
  lower :: "pystr \<Rightarrow> pystr"
  is_suspicious :: "pystr \<Rightarrow> bool \<times> pystr"
  generate :: "pystr \<Rightarrow> 'k \<Rightarrow> ('k \<rightharpoonup> 'h) \<Rightarrow> 'r \<times> ('k \<rightharpoonup> 'h)"

record ('k, 'h) bot =
  activated_users :: "'k set"
  rate_limiter :: "'k rate_limiter"
  user_conversations :: "'k \<rightharpoonup> 'h"

definition get_rag_response ::
  "('k, 'h, 'r) env \<Rightarrow> pystr \<Rightarrow> 'k \<Rightarrow> ('k \<rightharpoonup> 'h)
     \<Rightarrow> stage list \<times> 'r reply \<times> ('k \<rightharpoonup> 'h)" where
  "get_rag_response e user_message sender convs =
     (case sanitize_message user_message of
        Inl err \<Rightarrow> ([Sanitized False], InvalidInput err, convs)
      | Inr message \<Rightarrow>
          (case is_suspicious e message of
             (True, reason) \<Rightarrow> ([Sanitized True, ThreatChecked True], SuspiciousWarning, convs)
           | (False, reason) \<Rightarrow>
               (case generate e message sender convs of
                  (answer, convs1) \<Rightarrow>
                    ([Sanitized True, ThreatChecked False, Generated], Answer answer, convs1))))"

definition handle_message ::
  "('k, 'h, 'r) env \<Rightarrow> real \<Rightarrow> 'k \<Rightarrow> pystr \<Rightarrow> ('k, 'h) bot
     \<Rightarrow> stage list \<times> 'r reply option \<times> ('k, 'h) bot" where
  "handle_message e now sender msg st =
     (if msg = [] then ([], None, st)
      else if strip msg = passphrase e
        then ([], Some Welcome, st\<lparr>activated_users := insert sender (activated_users st)\<rparr>)
      else if sender \<notin> activated_users st then ([], None, st)
      else
        (case check_rate_limit now sender (rate_limiter st) of
           (False, limiter1) \<Rightarrow>
             ([RateChecked False], Some RateLimitNotice, st\<lparr>rate_limiter := limiter1\<rparr>)
         | (True, limiter1) \<Rightarrow>
             (let st1 = st\<lparr>rate_limiter := limiter1\<rparr>
              in if lower e msg = str ''/reset''
                   then ([RateChecked True], Some ResetDone,
                         st1\<lparr>user_conversations := (user_conversations st1)(sender := None)\<rparr>)
                 else if lower e msg = str ''/help'' then ([RateChecked True], Some Help, st1)
                 else if lower e msg = str ''/info'' then ([RateChecked True], Some Info, st1)
                 else
                   (case get_rag_response e msg sender (user_conversations st1) of
                      (stages, r, convs1) \<Rightarrow>
                        (RateChecked True # stages, Some r,
                         st1\<lparr>user_conversations := convs1\<rparr>)))))"

text \<open>
  An environment for concrete runs: no message is suspicious and the answer is the message
  itself. Neither is reached by a message that the sanitizer rejects.
\<close>

definition plain_env :: "(pystr, pystr list, pystr) env" where
  "plain_env = \<lparr>passphrase = str ''Activate Oracle'', lower = (\<lambda>s. s),
                 is_suspicious = (\<lambda>s. (False, [])),
                 generate = (\<lambda>m sender convs. (m, convs))\<rparr>"

definition active_bot :: "(pystr, pystr list) bot" where
  "active_bot = \<lparr>activated_users = {str ''+31612345678''}, rate_limiter = RateLimiter,
                  user_conversations = Map.empty\<rparr>"

subsection \<open>sanitize_message: proofs\<close>

lemma contains_sublist: "contains p t \<longleftrightarrow> sublist p t"
  by (induction t) (simp_all add: sublist_Cons_right)

lemma contains_iff: "contains p t \<longleftrightarrow> (\<exists>a b. t = a @ p @ b)"
  by (simp add: contains_sublist sublist_def)

lemma control_char_iff: "control_char c \<longleftrightarrow> c < 32 \<and> c \<notin> {9, 10, 13}"
  by (auto simp: control_char_def)

lemma sanitize_hello: "sanitize_message (str '' hello '') = Inr (str ''hello'')"
  by (simp add: sanitize_message_def str_def strip_def isspace_def control_char_def
      dangerous_patterns_def Let_def)

lemma sanitize_2001: "sanitize_message (replicate 2001 97) = Inl TooLong"
  by (simp add: sanitize_message_def strip_def isspace_def Let_def)

lemma sanitize_semicolon: "sanitize_message (str ''a;rm -rf'') = Inl DangerousPattern"
  by (simp add: sanitize_message_def str_def strip_def isspace_def control_char_def
      dangerous_patterns_def Let_def)

text \<open>
  What the code computes: the stripped text comes back exactly when it is not empty, has at
  most 2000 characters, has no character with code below 32 other than tab, LF and CR, and
  contains none of the six patterns; otherwise the error is that of the first of these
  checks that fails, in this order: empty, too long, invalid characters, dangerous pattern.
  \<open>" hello "\<close> gives \<open>"hello"\<close>, 2001 letters raise TooLong, \<open>"a;rm -rf"\<close> raises
  DangerousPattern.
\<close>

lemma sanitize_message_cases:
  "(sanitize_message text = Inr r \<longleftrightarrow>
      r = strip text \<and> strip text \<noteq> [] \<and> length (strip text) \<le> 2000 \<and>
      (\<forall>c\<in>set (strip text). c < 32 \<longrightarrow> c \<in> {9, 10, 13}) \<and>
      (\<forall>p\<in>set dangerous_patterns. \<not> contains p (strip text)))
   \<and> (sanitize_message text = Inl EmptyInput \<longleftrightarrow> strip text = [])
   \<and> (sanitize_message text = Inl TooLong \<longleftrightarrow> length (strip text) > 2000)
   \<and> (sanitize_message text = Inl InvalidChars \<longleftrightarrow>
        strip text \<noteq> [] \<and> length (strip text) \<le> 2000 \<and>
        (\<exists>c\<in>set (strip text). c < 32 \<and> c \<notin> {9, 10, 13}))
   \<and> (sanitize_message text = Inl DangerousPattern \<longleftrightarrow>
        strip text \<noteq> [] \<and> length (strip text) \<le> 2000 \<and>
        (\<forall>c\<in>set (strip text). c < 32 \<longrightarrow> c \<in> {9, 10, 13}) \<and>
        (\<exists>p\<in>set dangerous_patterns. contains p (strip text)))
   \<and> sanitize_message (str '' hello '') = Inr (str ''hello'')
   \<and> sanitize_message (replicate 2001 97) = Inl TooLong
   \<and> sanitize_message (str ''a;rm -rf'') = Inl DangerousPattern"
proof -
  have c: "list_ex control_char (strip text) \<longleftrightarrow>
           (\<exists>c\<in>set (strip text). c < 32 \<and> c \<notin> {9, 10, 13})"
    by (simp add: list_ex_iff control_char_iff)
  have d: "list_ex (\<lambda>pattern. contains pattern (strip text)) dangerous_patterns \<longleftrightarrow>
           (\<exists>p\<in>set dangerous_patterns. contains p (strip text))"
    by (simp add: list_ex_iff)
  have 1: "sanitize_message text = Inr r \<longleftrightarrow>
      r = strip text \<and> strip text \<noteq> [] \<and> length (strip text) \<le> 2000 \<and>
      (\<forall>c\<in>set (strip text). c < 32 \<longrightarrow> c \<in> {9, 10, 13}) \<and>
      (\<forall>p\<in>set dangerous_patterns. \<not> contains p (strip text))"
    unfolding sanitize_message_def Let_def c d by auto
  have 2: "sanitize_message text = Inl EmptyInput \<longleftrightarrow> strip text = []"
    unfolding sanitize_message_def Let_def by auto
  have 3: "sanitize_message text = Inl TooLong \<longleftrightarrow> length (strip text) > 2000"
    unfolding sanitize_message_def Let_def by auto
  have 4: "sanitize_message text = Inl InvalidChars \<longleftrightarrow>
        strip text \<noteq> [] \<and> length (strip text) \<le> 2000 \<and>
        (\<exists>c\<in>set (strip text). c < 32 \<and> c \<notin> {9, 10, 13})"
    unfolding sanitize_message_def Let_def c d by auto
  have 5: "sanitize_message text = Inl DangerousPattern \<longleftrightarrow>
        strip text \<noteq> [] \<and> length (strip text) \<le> 2000 \<and>
        (\<forall>c\<in>set (strip text). c < 32 \<longrightarrow> c \<in> {9, 10, 13}) \<and>
        (\<exists>p\<in>set dangerous_patterns. contains p (strip text))"
    unfolding sanitize_message_def Let_def c d by auto
  from 1 2 3 4 5 sanitize_hello sanitize_2001 sanitize_semicolon show ?thesis
    by blast
qed

text \<open>
  Claim C6 against the code. The claim asks for InvalidChars whenever the stripped text
  holds an ASCII control character other than tab, LF and CR, and the comment in the code
  announces that check. DEL (code 127) is such a character, but the character class of
  the code ends at code 31: the text \<open>a\<close>, DEL, \<open>b\<close> is returned as it is.
\<close>

theorem sanitize_message_accepts_del:
  "ascii_control ([97, 127, 98] ! 1) \<and> [97, 127, 98] ! 1 \<notin> {9, 10, 13 :: nat} \<and>
   sanitize_message [97, 127, 98] = Inr [97, 127, 98]"
  by (simp add: ascii_control_def sanitize_message_def strip_def isspace_def control_char_def
      dangerous_patterns_def Let_def)

subsection \<open>chunk_text: proofs\<close>

lemma rfind_from_append:
  "rfind_from c (xs @ ys) i found =
     rfind_from c ys (i + int (length xs)) (rfind_from c xs i found)"
  by (induction xs arbitrary: i found) (simp_all add: algebra_simps)

lemma rfind_from_absent: "c \<notin> set xs \<Longrightarrow> rfind_from c xs i found = found"
  by (induction xs arbitrary: i found) auto

text \<open>\<open>rfind\<close> gives the position of the last occurrence, and \<open>-1\<close> when there is none.\<close>

lemma rfind_absent: "c \<notin> set s \<Longrightarrow> rfind s c = - 1"
  by (simp add: rfind_def rfind_from_absent)

lemma rfind_last: "c \<notin> set ys \<Longrightarrow> rfind (xs @ c # ys) c = int (length xs)"
  by (simp add: rfind_def rfind_from_append rfind_from_absent)

lemma rfind_from_bounds:
  "found < i \<Longrightarrow>
   found \<le> rfind_from c xs i found \<and> rfind_from c xs i found \<le> i + int (length xs) - 1"
proof (induction xs arbitrary: i found)
  case Nil
  then show ?case by simp
next
  case (Cons x xs)
  have "(if x = c then i else found) < i + 1" using Cons.prems by simp
  from Cons.IH[OF this] Cons.prems show ?case
    by (auto split: if_splits)
qed

lemma rfind_bounds: "- 1 \<le> rfind s c \<and> rfind s c < int (length s)"
  using rfind_from_bounds[of "-1" 0 c s] by (simp add: rfind_def)

lemma length_slice_window:
  "0 \<le> w \<Longrightarrow> int (length (slice s a (a + w))) \<le> w"
  by (auto simp: slice_def slice_bound_def Let_def min_def max_def)

lemma length_slice_le: "length (slice s a b) \<le> length s"
  by (simp add: slice_def Let_def)

lemma length_strip_le: "length (strip s) \<le> length s"
proof -
  have "length (strip s) \<le> length (dropWhile isspace s)"
    unfolding strip_def using length_dropWhile_le[of isspace "rev (dropWhile isspace s)"]
    by simp
  also have "\<dots> \<le> length s" by (rule length_dropWhile_le)
  finally show ?thesis .
qed

lemma slice_all: "int (length s) \<le> b \<Longrightarrow> slice s 0 b = s"
  by (simp add: slice_def slice_bound_def Let_def)

lemma chunk_step_bounds:
  assumes "0 \<le> cs" "chunk_step text cs ov start = (chunk, start1)"
  shows "int (length chunk) \<le> cs \<and> start1 \<le> start + cs - ov"
proof -
  let ?c0 = "slice text start (start + cs)"
  let ?bp = "max (rfind ?c0 46) (rfind ?c0 10)"
  have l0: "int (length ?c0) \<le> cs" using assms(1) by (rule length_slice_window)
  have bp: "?bp < int (length ?c0)" using rfind_bounds[of ?c0 46] rfind_bounds[of ?c0 10] by simp
  have l1: "int (length (strip ?c0)) \<le> cs"
    using l0 length_strip_le[of ?c0] by linarith
  have l2: "int (length (strip (slice ?c0 0 (?bp + 1)))) \<le> cs"
    using l0 length_strip_le[of "slice ?c0 0 (?bp + 1)"] length_slice_le[of ?c0 0 "?bp + 1"]
    by linarith
  from assms(2) l0 l1 l2 bp show ?thesis
    by (auto simp: chunk_step_def Let_def split: if_splits)
qed

lemma chunk_step_advances:
  assumes "ov < cs" "2 * ov \<le> cs" "chunk_step text cs ov start = (chunk, start1)"
  shows "start + 1 \<le> start1"
  using assms by (auto simp: chunk_step_def Let_def split: if_splits)

lemma chunk_step_stalls:
  assumes "0 \<le> cs" "cs \<le> ov" "chunk_step text cs ov start = (chunk, start1)"
  shows "start1 \<le> start"
  using chunk_step_bounds[OF assms(1,3)] assms(2) by linarith

lemma chunk_loop_returns:
  assumes "ov < cs" "2 * ov \<le> cs"
  shows "nat (int (length text) - start) < fuel \<Longrightarrow>
         \<exists>res. chunk_loop fuel text cs ov start chunks = Some res"
proof (induction fuel arbitrary: start chunks)
  case 0
  then show ?case by simp
next
  case (Suc fuel)
  show ?case
  proof (cases "start < int (length text)")
    case False
    then show ?thesis by simp
  next
    case True
    obtain chunk start1 where s: "chunk_step text cs ov start = (chunk, start1)"
      by (cases "chunk_step text cs ov start") auto
    from chunk_step_advances[OF assms s] True Suc.prems
    have "nat (int (length text) - start1) < fuel" by linarith
    from Suc.IH[OF this, of "chunks @ [chunk]"] True s show ?thesis by simp
  qed
qed

lemma chunk_loop_never_returns:
  assumes "0 \<le> cs" "cs \<le> ov"
  shows "start < int (length text) \<Longrightarrow> chunk_loop fuel text cs ov start chunks = None"
proof (induction fuel arbitrary: start chunks)
  case 0
  then show ?case by simp
next
  case (Suc fuel)
  obtain chunk start1 where s: "chunk_step text cs ov start = (chunk, start1)"
    by (cases "chunk_step text cs ov start") auto
  from chunk_step_stalls[OF assms s] Suc.prems have "start1 < int (length text)" by linarith
  from Suc.IH[OF this, of "chunks @ [chunk]"] Suc.prems s show ?case by simp
qed

lemma chunk_loop_result:
  assumes "0 \<le> cs"
  shows "chunk_loop fuel text cs ov start chunks = Some res \<Longrightarrow>
         \<exists>new. res = chunks @ new \<and> (\<forall>c\<in>set new. int (length c) \<le> cs) \<and>
               int (length text) \<le> start + int (length new) * (cs - ov)"
proof (induction fuel arbitrary: start chunks)
  case 0
  then show ?case by simp
next
  case (Suc fuel)
  show ?case
  proof (cases "start < int (length text)")
    case False
    with Suc.prems show ?thesis by simp
  next
    case True
    obtain chunk start1 where s: "chunk_step text cs ov start = (chunk, start1)"
      by (cases "chunk_step text cs ov start") auto
    with True Suc.prems
    have "chunk_loop fuel text cs ov start1 (chunks @ [chunk]) = Some res" by simp
    from Suc.IH[OF this] obtain new where
      n: "res = (chunks @ [chunk]) @ new" "\<forall>c\<in>set new. int (length c) \<le> cs"
         "int (length text) \<le> start1 + int (length new) * (cs - ov)"
      by blast
    from chunk_step_bounds[OF assms s]
    have b: "int (length chunk) \<le> cs" "start1 \<le> start + cs - ov" by auto
    have "int (length text) \<le> start + int (length (chunk # new)) * (cs - ov)"
      using n(3) b(2) by (simp add: algebra_simps)
    with n(1,2) b(1) show ?thesis
      by (intro exI[of _ "chunk # new"]) simp
  qed
qed

lemma chunk_count_bound:
  assumes "0 \<le> ov" "ov < cs" "len \<le> int n * (cs - ov)"
  shows "\<lceil>real_of_int (len - ov) / real_of_int (cs - ov)\<rceil> \<le> int n"
proof -
  have "real_of_int (len - ov) \<le> real_of_int (int n * (cs - ov))"
    using assms(1,3) by linarith
  then have "real_of_int (len - ov) / real_of_int (cs - ov) \<le> real n"
    using assms(2) by (simp add: pos_divide_le_eq)
  then show ?thesis by (simp add: ceiling_le_iff)
qed

lemma chunk_text_empty: "chunk_text (Suc fuel) [] cs ov = Some []"
  by (simp add: chunk_text_def)

lemma chunk_text_short:
  assumes "0 \<le> ov" "text \<noteq> []" "int (length text) \<le> cs - ov"
  shows "chunk_text (Suc (Suc fuel)) text cs ov = Some [strip text]"
proof -
  have "slice text 0 cs = text" using assms(1,3) by (intro slice_all) linarith
  then have "chunk_step text cs ov 0 = (strip text, cs - ov)"
    using assms(1,3) by (simp add: chunk_step_def Let_def)
  with assms(2,3) show ?thesis
    by (simp add: chunk_text_def)
qed

lemma chunk_text_example:
  "chunk_text 26 (str ''One two. Three four. Five'') 10 2 =
     Some [str ''One two.'', str ''o. Three f'', str ''four. Fiv'', str ''ive'']"
  by code_simp

text \<open>
  A sentence break with an overlap of more than half the chunk size can move \<^verbatim>\<open>start\<close>
  backwards: on this text, with chunk size 10 and overlap 9, the loop alternates between
  \<open>start = 0\<close> and \<open>start = -1\<close> and never returns.
\<close>

lemma chunk_loop_cycle:
  "chunk_loop fuel (str ''aaaaaaa.aaaaaaaaaaaa'') 10 9 0 chunks = None \<and>
   chunk_loop fuel (str ''aaaaaaa.aaaaaaaaaaaa'') 10 9 (- 1) chunks = None"
proof (induction fuel arbitrary: chunks)
  case 0
  then show ?case by simp
next
  case (Suc fuel)
  have s0: "chunk_step (str ''aaaaaaa.aaaaaaaaaaaa'') 10 9 0 = (str ''aaaaaaa.'', - 1)"
    by code_simp
  have s1: "chunk_step (str ''aaaaaaa.aaaaaaaaaaaa'') 10 9 (- 1) = ([], 0)"
    by code_simp
  have l: "length (str ''aaaaaaa.aaaaaaaaaaaa'') = 20" by (simp add: str_def)
  from Suc show ?case by (simp add: s0 s1 l)
qed

lemma chunk_text_may_loop: "chunk_text fuel (str ''aaaaaaa.aaaaaaaaaaaa'') 10 9 = None"
  by (simp add: chunk_text_def chunk_loop_cycle)

text \<open>
  Claim C2, as stated, fails: each chunk is stripped, so a short text with surrounding
  whitespace does not come back unmodified; and a text no longer than the chunk size but
  longer than chunk size minus overlap gives more than one chunk.
\<close>

theorem chunk_text_short_text_modified:
  "int (length (str '' a '')) \<le> 1000 \<and>
   chunk_text 3 (str '' a '') 1000 200 = Some [str ''a''] \<and>
   str ''a'' \<noteq> str '' a '' \<and>
   int (length (str ''abcd'')) \<le> 4 \<and>
   chunk_text 3 (str ''abcd'') 4 2 = Some [str ''abcd'', str ''cd'']"
  by code_simp

text \<open>
  Claim C2, amended. The empty text yields the empty sequence. For \<open>0 \<le> overlap\<close>, a text
  that is not empty and no longer than \<open>chunk_size - overlap\<close> yields exactly one chunk, the
  text stripped of surrounding whitespace. For \<open>0 \<le> overlap < chunk_size\<close> with
  \<open>2 * overlap \<le> chunk_size\<close> the call returns, within one pass per character; and whenever
  a call with \<open>0 \<le> overlap < chunk_size\<close> returns, every chunk has length at most
  \<open>chunk_size\<close> and the number of chunks is at least
  \<open>\<lceil>(len(T) - overlap) / (chunk_size - overlap)\<rceil>\<close>.
\<close>

theorem chunk_text_chunks:
  "chunk_text (Suc fuel) [] cs ov = Some []
   \<and> (0 \<le> ov \<longrightarrow> doc \<noteq> [] \<longrightarrow> int (length doc) \<le> cs - ov \<longrightarrow>
        chunk_text (Suc (Suc fuel)) doc cs ov = Some [strip doc])
   \<and> (0 \<le> ov \<longrightarrow> ov < cs \<longrightarrow> 2 * ov \<le> cs \<longrightarrow>
        (\<exists>chunks. chunk_text (Suc (length textA)) textA cs ov = Some chunks))
   \<and> (0 \<le> ov \<longrightarrow> ov < cs \<longrightarrow> chunk_text fuelB textB cs ov = Some chunksB \<longrightarrow>
        (\<forall>c\<in>set chunksB. int (length c) \<le> cs) \<and>
        \<lceil>real_of_int (int (length textB) - ov) / real_of_int (cs - ov)\<rceil>
          \<le> int (length chunksB))"
proof (intro conjI impI)
  show "chunk_text (Suc fuel) [] cs ov = Some []" by (rule chunk_text_empty)
next
  assume "0 \<le> ov" "doc \<noteq> []" "int (length doc) \<le> cs - ov"
  then show "chunk_text (Suc (Suc fuel)) doc cs ov = Some [strip doc]"
    by (rule chunk_text_short)
next
  assume "0 \<le> ov" "ov < cs" "2 * ov \<le> cs"
  then show "\<exists>chunks. chunk_text (Suc (length textA)) textA cs ov = Some chunks"
    unfolding chunk_text_def by (intro chunk_loop_returns) simp_all
next
  assume a: "0 \<le> ov" "ov < cs" "chunk_text fuelB textB cs ov = Some chunksB"
  then have "0 \<le> cs" by simp
  from chunk_loop_result[OF this a(3)[unfolded chunk_text_def]]
  have r: "\<forall>c\<in>set chunksB. int (length c) \<le> cs"
    "int (length textB) \<le> int (length chunksB) * (cs - ov)"
    by auto
  from r(1) show "\<forall>c\<in>set chunksB. int (length c) \<le> cs" .
  from chunk_count_bound[OF a(1,2) r(2)]
  show "\<lceil>real_of_int (int (length textB) - ov) / real_of_int (cs - ov)\<rceil>
          \<le> int (length chunksB)" .
qed

theorem chunk_text_chunks_witness:
  "chunk_text 2 (str '' hi '') 10 2 = Some [str ''hi'']
   \<and> (\<exists>chunks. chunk_text (Suc (length (str ''One two. Three four. Five'')))
          (str ''One two. Three four. Five'') 10 2 = Some chunks)
   \<and> int (length (str ''o. Three f'')) \<le> 10
   \<and> \<lceil>real_of_int (25 - 2) / real_of_int (10 - 2)\<rceil> \<le> (4::int)"
  using chunk_text_chunks [where fuel = 0 and cs = 10 and ov = 2 and doc = "str '' hi ''"
      and textA = "str ''One two. Three four. Five''" and fuelB = 26
      and textB = "str ''One two. Three four. Five''"
      and chunksB = "[str ''One two.'', str ''o. Three f'', str ''four. Fiv'', str ''ive'']"]
    chunk_text_example
  by (simp add: str_def strip_def isspace_def numeral_2_eq_2)

lemma chunk_text_returns:
  assumes "ov < cs" "2 * ov \<le> cs"
  shows "\<exists>chunks. chunk_text (Suc (length doc)) doc cs ov = Some chunks"
  unfolding chunk_text_def using assms by (intro chunk_loop_returns) simp_all

lemma chunk_text_stalls:
  assumes "0 \<le> cs" "cs \<le> ov" "doc \<noteq> []"
  shows "chunk_text fuel doc cs ov = None"
  unfolding chunk_text_def using assms by (intro chunk_loop_never_returns) simp_all

text \<open>
  Claim C5 against the code. The function has no check of its parameters and no error to
  raise. With chunk size 10 and overlap 9, parameters for which the claim promises normal
  termination, the loop on the text below never returns, whatever the fuel. With overlap
  equal to the chunk size, where the claim asks for ConfigError, the loop never returns
  either. With a negative overlap, where the claim asks for ConfigError as well, a result
  is returned.
\<close>

theorem chunk_text_no_config_error:
  "chunk_text fuel (str ''aaaaaaa.aaaaaaaaaaaa'') 10 9 = None
   \<and> chunk_text fuel (str ''ab'') 5 5 = None
   \<and> chunk_text 3 (str ''abc'') 2 (- 1) = Some [str ''ab'']"
proof (intro conjI)
  show "chunk_text fuel (str ''aaaaaaa.aaaaaaaaaaaa'') 10 9 = None"
    by (simp add: chunk_text_def chunk_loop_cycle)
  have "str ''ab'' \<noteq> []" by (simp add: str_def)
  then show "chunk_text fuel (str ''ab'') 5 5 = None"
    by (intro chunk_text_stalls) simp_all
  show "chunk_text 3 (str ''abc'') 2 (- 1) = Some [str ''ab'']"
    by code_simp
qed

subsection \<open>search: proofs\<close>

lemma length_index_search:
  "index_search vectors query k = Inr pairs \<Longrightarrow> int (length pairs) = k"
  by (auto simp: index_search_def Let_def split: if_splits)

lemma join_results_length:
  "join_results chunks pairs acc = Inr rs \<Longrightarrow> length rs = length acc + length pairs"
proof (induction pairs arbitrary: acc)
  case Nil
  then show ?case by simp
next
  case (Cons p pairs)
  obtain d idx where p: "p = (d, idx)" by (cases p)
  with Cons.prems obtain c where "getitem chunks idx = Inr c"
    "join_results chunks pairs (acc @ [(c, d)]) = Inr rs"
    by (auto split: sum.splits)
  with Cons.IH[of "acc @ [(c, d)]"] show ?case by simp
qed

text \<open>Whenever \<open>search\<close> returns, it returns \<open>k\<close> results, also when \<open>k\<close> exceeds the number
  of stored vectors.\<close>

lemma search_length: "search chunks vectors q k = Inr rs \<Longrightarrow> int (length rs) = k"
  by (auto simp: search_def split: sum.splits
      dest!: join_results_length length_index_search)

lemma join_results_in_range:
  "\<forall>p\<in>set pairs. 0 \<le> snd p \<and> snd p < int (length chunks) \<Longrightarrow>
   join_results chunks pairs acc =
     Inr (acc @ map (\<lambda>p. (chunks ! nat (snd p), fst p)) pairs)"
proof (induction pairs arbitrary: acc)
  case Nil
  then show ?case by simp
next
  case (Cons p pairs)
  obtain d idx where p: "p = (d, idx)" by (cases p)
  with Cons.prems have "getitem chunks idx = Inr (chunks ! nat idx)"
    by (simp add: getitem_def)
  with Cons p show ?case by simp
qed

text \<open>
  For \<open>k\<close> from 1 up to the number of stored vectors, and as many chunks as vectors,
  \<open>search\<close> does what the claim says: \<open>k\<close> results, in ascending distance, each a chunk with the
  distance of the vector at the same position.
\<close>

lemma search_within_ntotal:
  assumes "length chunks = length vectors" "0 < k" "k \<le> int (length vectors)"
  shows "\<exists>rs. search chunks vectors q k = Inr rs \<and> int (length rs) = k \<and>
           sorted (map snd rs) \<and>
           (\<forall>r\<in>set rs. \<exists>j<length vectors. r = (chunks ! j, l2_distance q (vectors ! j)))"
proof -
  let ?all = "map (\<lambda>i. (l2_distance q (vectors ! i), int i)) [0..<length vectors]"
  let ?found = "take (nat k) (sort_key fst ?all)"
  have len: "length ?found = nat k" using assms(3) by simp
  then have isr: "index_search vectors q k = Inr ?found"
    using assms(2) by (simp add: index_search_def Let_def)
  have sub: "set ?found \<subseteq> set ?all"
    using set_take_subset[of "nat k" "sort_key fst ?all"] by simp
  then have rng: "\<forall>p\<in>set ?found. 0 \<le> snd p \<and> snd p < int (length chunks)"
    using assms(1) by auto
  let ?rs = "map (\<lambda>p. (chunks ! nat (snd p), fst p)) ?found"
  have s: "search chunks vectors q k = Inr ?rs"
    using join_results_in_range[OF rng, of "[]"] by (simp add: search_def isr)
  have "map snd ?rs = take (nat k) (map fst (sort_key fst ?all))"
    by (simp add: take_map o_def)
  then have srt: "sorted (map snd ?rs)"
    using sorted_sort_key[of fst ?all] by (simp add: sorted_wrt_take)
  have mem: "\<forall>r\<in>set ?rs. \<exists>j<length vectors. r = (chunks ! j, l2_distance q (vectors ! j))"
  proof
    fix r assume "r \<in> set ?rs"
    then obtain p where p: "p \<in> set ?found" "r = (chunks ! nat (snd p), fst p)" by auto
    with sub have "p \<in> set ?all" by blast
    then obtain j where "j < length vectors" "p = (l2_distance q (vectors ! j), int j)" by auto
    with p(2) show "\<exists>j<length vectors. r = (chunks ! j, l2_distance q (vectors ! j))"
      by (intro exI[of _ j]) simp
  qed
  have "int (length ?rs) = k" using len assms(2) by simp
  with s srt mem show ?thesis by (intro exI[of _ ?rs]) simp
qed

text \<open>
  Claim C1 against the code. With two stored vectors and \<open>k = 3\<close> the claim asks for
  \<open>min k ntotal = 2\<close> results; \<open>search\<close> returns three, the third being the last chunk again
  (label \<open>-1\<close>) at the padding distance. With an empty index and \<open>k = 1\<close> the claim asks for
  no result and no exception; \<open>search\<close> raises \<^verbatim>\<open>IndexError\<close>.
\<close>

theorem search_beyond_ntotal:
  "search [chunk_a, chunk_b] [[0], [1]] [0] 3 =
     Inr [(chunk_a, 0), (chunk_b, 1), (chunk_b, flt_max)]
   \<and> search [] [] [0] 1 = Inl IndexError"
  by (simp add: search_def index_search_def l2_distance_def getitem_def Let_def
      numeral_3_eq_3)

subsection \<open>retry_with_backoff: proofs\<close>

text \<open>
  The loop after \<open>length es\<close> retryable failures followed by a last outcome \<open>r\<close> that ends
  it: a value, an exception that is not retryable, or a failure of the last attempt.
\<close>

lemma retry_loop_run:
  assumes "0 \<le> base"
  shows "attempts sleep func base (Suc (length es)) a w = map Inl es @ [r] \<Longrightarrow>
         \<forall>e\<in>set es. retryable e \<Longrightarrow> length es < rem \<Longrightarrow> int a + int (length es) \<le> mx \<Longrightarrow>
         (\<forall>e. r = Inl e \<longrightarrow> retryable e \<longrightarrow> int a + int (length es) = mx) \<Longrightarrow>
         (\<exists>w'. retry_loop sleep func mx base retryable rem a le w acc =
            ((case r of Inl e \<Rightarrow> Inl (Raised e) | Inr v \<Rightarrow> Inr (Some v)), w',
             acc @ map (\<lambda>i. base * 2 ^ i) [a..<a + length es]))"
proof (induction es arbitrary: a w rem le acc)
  case Nil
  then obtain n where "rem = Suc n" by (cases rem) auto
  with Nil show ?case by (auto split: prod.splits sum.splits)
next
  case (Cons e es)
  then obtain n where rem: "rem = Suc n" by (cases rem) auto
  obtain r1 w1 where f: "func w = (r1, w1)" by (cases "func w") auto
  with Cons.prems(1) have r: "r1 = Inl e"
    and tl: "attempts sleep func base (Suc (length es)) (Suc a) (sleep (base * 2 ^ a) w1) =
             map Inl es @ [r]"
    by auto
  from Cons.prems have re: "retryable e" and lt: "int a < mx" by auto
  from assms have d: "\<not> base * 2 ^ a < 0" by (simp add: not_less)
  from Cons.prems rem have p: "\<forall>e\<in>set es. retryable e" "length es < n"
    "int (Suc a) + int (length es) \<le> mx"
    "\<forall>e. r = Inl e \<longrightarrow> retryable e \<longrightarrow> int (Suc a) + int (length es) = mx" by auto
  from Cons.IH[OF tl p, of "Some e" "acc @ [base * 2 ^ a]"]
  obtain w' where "retry_loop sleep func mx base retryable n (Suc a) (Some e)
       (sleep (base * 2 ^ a) w1) (acc @ [base * 2 ^ a]) =
      ((case r of Inl e \<Rightarrow> Inl (Raised e) | Inr v \<Rightarrow> Inr (Some v)), w',
       (acc @ [base * 2 ^ a]) @ map (\<lambda>i. base * 2 ^ i) [Suc a..<Suc a + length es])"
    by blast
  moreover have "[a..<a + length (e # es)] = a # [Suc a..<Suc a + length es]"
    by (simp add: upt_conv_Cons del: upt_Suc)
  ultimately show ?case
    using rem f r re lt d by (simp add: Let_def del: upt_Suc)
qed

lemma retry_with_backoff_run:
  assumes "0 \<le> base" "attempts sleep func base (Suc (length es)) 0 w = map Inl es @ [r]"
    "\<forall>e\<in>set es. retryable e" "int (length es) \<le> mx"
    "\<forall>e. r = Inl e \<longrightarrow> retryable e \<longrightarrow> int (length es) = mx"
  shows "\<exists>w'. retry_with_backoff sleep func mx base retryable w =
            ((case r of Inl e \<Rightarrow> Inl (Raised e) | Inr v \<Rightarrow> Inr (Some v)), w',
             map (\<lambda>i. base * 2 ^ i) [0..<length es])"
proof -
  from assms(4) have "length es < nat (mx + 1)" by linarith
  from retry_loop_run[OF assms(1) assms(2) assms(3) this, of mx None "[]"] assms(4,5)
  show ?thesis by (simp add: retry_with_backoff_def)
qed

text \<open>
  Claim C8. With a delay base that is not negative: when the operation fails \<open>n\<close> times
  with retryable exceptions (\<open>n \<le> max_retries\<close>) and then returns \<open>v\<close>, the result is
  \<open>v\<close> after exactly the sleeps \<open>base_delay * 2 ^ i\<close> for \<open>i < n\<close>, in this order; when the
  failure after them is not retryable it is raised with no further sleep; when
  \<open>max_retries + 1\<close> calls all fail, the last exception is raised after \<open>max_retries\<close>
  sleeps. An operation failing twice and then succeeding, with \<open>max_retries = 3\<close> and
  \<open>base_delay = 1\<close>, returns its value after the two sleeps 1 and 2.
\<close>

theorem retry_with_backoff_sleeps:
  fixes func :: "'w \<Rightarrow> ('e + 'a) \<times> 'w"
  shows
  "(0 \<le> base \<longrightarrow> attempts sleep func base (Suc (length es)) 0 w = map Inl es @ [Inr v] \<longrightarrow>
      (\<forall>e\<in>set es. retryable e) \<longrightarrow> int (length es) \<le> mx \<longrightarrow>
      (\<exists>w'. retry_with_backoff sleep func mx base retryable w =
         (Inr (Some v), w', map (\<lambda>i. base * 2 ^ i) [0..<length es])))
   \<and> (0 \<le> base \<longrightarrow> attempts sleep func base (Suc (length esA)) 0 wA = map Inl esA @ [Inl eA] \<longrightarrow>
      (\<forall>e\<in>set esA. retryable e) \<longrightarrow> \<not> retryable eA \<longrightarrow> int (length esA) \<le> mx \<longrightarrow>
      (\<exists>w'. retry_with_backoff sleep func mx base retryable wA =
         (Inl (Raised eA), w', map (\<lambda>i. base * 2 ^ i) [0..<length esA])))
   \<and> (0 \<le> base \<longrightarrow> attempts sleep func base (Suc (length esB)) 0 wB = map Inl esB @ [Inl eB] \<longrightarrow>
      (\<forall>e\<in>set esB. retryable e) \<longrightarrow> retryable eB \<longrightarrow> int (length esB) = mx \<longrightarrow>
      (\<exists>w'. retry_with_backoff sleep func mx base retryable wB =
         (Inl (Raised eB), w', map (\<lambda>i. base * 2 ^ i) [0..<nat mx])))
   \<and> (func w0 = (Inl e1, w1) \<longrightarrow> func (sleep 1 w1) = (Inl e2, w2) \<longrightarrow>
      func (sleep 2 w2) = (Inr x, w3) \<longrightarrow> retryable e1 \<longrightarrow> retryable e2 \<longrightarrow>
      retry_with_backoff sleep func 3 1 retryable w0 = (Inr (Some x), w3, [1, 2]))"
proof (intro conjI impI)
  assume "0 \<le> base" "attempts sleep func base (Suc (length es)) 0 w = map Inl es @ [Inr v]"
    "\<forall>e\<in>set es. retryable e" "int (length es) \<le> mx"
  from retry_with_backoff_run[OF this]
  show "\<exists>w'. retry_with_backoff sleep func mx base retryable w =
         (Inr (Some v), w', map (\<lambda>i. base * 2 ^ i) [0..<length es])"
    by simp
next
  assume a: "0 \<le> base"
    "attempts sleep func base (Suc (length esA)) 0 wA = map Inl esA @ [Inl eA]"
    "\<forall>e\<in>set esA. retryable e"
    and n: "\<not> retryable eA" and l: "int (length esA) \<le> mx"
  from retry_with_backoff_run[OF a l] n
  show "\<exists>w'. retry_with_backoff sleep func mx base retryable wA =
         (Inl (Raised eA), w', map (\<lambda>i. base * 2 ^ i) [0..<length esA])"
    by simp
next
  assume a: "0 \<le> base"
    "attempts sleep func base (Suc (length esB)) 0 wB = map Inl esB @ [Inl eB]"
    "\<forall>e\<in>set esB. retryable e"
    and l: "int (length esB) = mx"
  from l have "int (length esB) \<le> mx" "nat mx = length esB" by auto
  with retry_with_backoff_run[OF a, of mx] l
  show "\<exists>w'. retry_with_backoff sleep func mx base retryable wB =
         (Inl (Raised eB), w', map (\<lambda>i. base * 2 ^ i) [0..<nat mx])"
    by simp
next
  assume "func w0 = (Inl e1, w1)" "func (sleep 1 w1) = (Inl e2, w2)"
    "func (sleep 2 w2) = (Inr x, w3)" "retryable e1" "retryable e2"
  then show "retry_with_backoff sleep func 3 1 retryable w0 = (Inr (Some x), w3, [1, 2])"
    by (simp add: retry_with_backoff_def eval_nat_numeral Let_def)
qed

theorem retry_with_backoff_sleeps_witness:
  "retry_with_backoff sleep_script (scripted False) 3 1 (\<lambda>e. e)
       (0, [Inl True, Inl True, Inr (42::nat)]) =
     (Inr (Some 42), (6, []), [1, 2])
   \<and> (\<exists>w'. retry_with_backoff sleep_script (scripted False) 2 1 (\<lambda>e. e)
       (0, [Inl True, Inl False, Inr (42::nat)]) = (Inl (Raised False), w', [1]))
   \<and> (\<exists>w'. retry_with_backoff sleep_script (scripted False) 2 1 (\<lambda>e. e)
       (0, [Inl True, Inl True, Inl True, Inr (42::nat)]) = (Inl (Raised True), w', [1, 2]))"
  using retry_with_backoff_sleeps [where sleep = sleep_script and func = "scripted False"
      and retryable = "\<lambda>e. e" and base = 1 and mx = 2
      and es = "[True, True]" and v = 42 and w = "(0, [Inl True, Inl True, Inr (42::nat)])"
      and esA = "[True]" and eA = False and wA = "(0, [Inl True, Inl False, Inr (42::nat)])"
      and esB = "[True, True]" and eB = True
      and wB = "(0, [Inl True, Inl True, Inl True, Inr (42::nat)])"
      and ?w0.0 = "(0, [Inl True, Inl True, Inr (42::nat)])"
      and ?e1.0 = True and ?w1.0 = "(1, [Inl True, Inr (42::nat)])"
      and ?e2.0 = True and ?w2.0 = "(3, [Inr (42::nat)])"
      and x = 42 and ?w3.0 = "(6, [])"]
  by (simp add: numeral_2_eq_2 numeral_3_eq_3)

subsection \<open>AnomalyDetector: proofs\<close>

lemma record_message_length_funpow:
  "length (message_lengths d) + n \<le> 1000 \<Longrightarrow>
   message_lengths ((record_message_length x ^^ n) d) = message_lengths d @ replicate n x"
proof (induction n)
  case 0
  then show ?case by simp
next
  case (Suc n)
  then show ?case
    by (simp add: record_message_length_def deque_append_def replicate_append_same)
qed

lemma mean_replicate: "0 < n \<Longrightarrow> mean (replicate n c) = real_of_int c"
  by (simp add: mean_def sum_list_replicate)

lemma stdev_replicate: "0 < n \<Longrightarrow> stdev (replicate n c) = 0"
  by (simp add: stdev_def mean_replicate sum_list_replicate)

lemma is_anomalous_length_constant:
  "is_anomalous_length v k \<lparr>message_lengths = replicate n c, message_times = ts\<rparr>
     \<longleftrightarrow> 10 \<le> n \<and> v \<noteq> c"
  by (cases "n < 10") (auto simp: is_anomalous_length_def mean_replicate stdev_replicate)

lemma hundred_samples:
  "(record_message_length 50 ^^ 100) AnomalyDetector =
     \<lparr>message_lengths = replicate 100 50, message_times = []\<rparr>"
proof -
  have "message_lengths ((record_message_length 50 ^^ 100) AnomalyDetector) = replicate 100 50"
    using record_message_length_funpow[of AnomalyDetector 100 50]
    by (simp add: AnomalyDetector_def)
  moreover have "message_times ((record_message_length x ^^ n) d) = message_times d" for x n d
    by (induction n) (simp_all add: record_message_length_def)
  ultimately show ?thesis
    by (simp add: AnomalyDetector_def)
qed

text \<open>
  Claim C4, as stated, fails: after 100 samples equal to 50 the deviation of the history is
  0, and the value 55 is flagged at threshold 3.
\<close>

theorem is_anomalous_length_flags_55:
  "is_anomalous_length 55 3 ((record_message_length 50 ^^ 100) AnomalyDetector)"
  by (simp add: hundred_samples is_anomalous_length_constant)

text \<open>
  Claim C4, amended. After 100 samples equal to 50, threshold 3 flags 500 and flags 55 as
  well; only the value 50 itself is not flagged. In general a length is flagged iff the
  history holds at least 10 samples and the distance of the value from their mean exceeds
  \<open>threshold_std\<close> times their sample standard deviation; on a history of \<open>n\<close> equal samples
  that is every other value, once \<open>n\<close> is at least 10.
\<close>

theorem is_anomalous_length_spec:
  "is_anomalous_length 500 3 ((record_message_length 50 ^^ 100) AnomalyDetector)
   \<and> is_anomalous_length 55 3 ((record_message_length 50 ^^ 100) AnomalyDetector)
   \<and> \<not> is_anomalous_length 50 3 ((record_message_length 50 ^^ 100) AnomalyDetector)
   \<and> (is_anomalous_length v k d \<longleftrightarrow>
        10 \<le> length (message_lengths d) \<and>
        \<bar>real_of_int v - mean (message_lengths d)\<bar> > k * stdev (message_lengths d))
   \<and> (is_anomalous_length v k \<lparr>message_lengths = replicate n c, message_times = ts\<rparr>
        \<longleftrightarrow> 10 \<le> n \<and> v \<noteq> c)"
  by (simp add: hundred_samples is_anomalous_length_constant)
     (auto simp: is_anomalous_length_def)

subsection \<open>RateLimiter: proofs\<close>

lemma dropWhile_sorted_filter:
  "sorted xs \<Longrightarrow> dropWhile (\<lambda>ts. ts < c) xs = filter (\<lambda>ts. c \<le> ts) (xs :: real list)"
proof (induction xs)
  case Nil
  then show ?case by simp
next
  case (Cons x xs)
  show ?case
  proof (cases "x < c")
    case True
    with Cons show ?thesis by simp
  next
    case False
    with Cons.prems have "\<forall>y\<in>set xs. c \<le> y" by auto
    then have "filter (\<lambda>ts. c \<le> ts) xs = xs" by simp
    with False show ?thesis by simp
  qed
qed

lemma check_rate_limit_in_window:
  assumes "\<forall>x\<in>set (m u). now - 60 < x"
  shows "check_rate_limit now u m =
           (length (m u) < 10, m(u := (if length (m u) < 10 then m u @ [now] else m u)))"
proof -
  from assms have "\<forall>x\<in>set (m u). \<not> x < now - 3600" by fastforce
  then have d: "dropWhile (\<lambda>ts. ts < now - 3600) (m u) = m u"
    by (simp add: dropWhile_eq_self_iff hd_in_set)
  from assms have f: "filter (\<lambda>ts. ts > now - 60) (m u) = m u" by simp
  show ?thesis
    by (auto simp: check_rate_limit_def Let_def d f)
qed

lemma check_seq_in_window:
  assumes "\<forall>x\<in>set (m u) \<union> set ts. \<forall>t\<in>set ts. t - 60 < x"
  shows "check_seq u ts m =
           (map (\<lambda>i. length (m u) + i < 10) [0..<length ts],
            m(u := m u @ take (10 - length (m u)) ts))"
  using assms
proof (induction ts arbitrary: m)
  case Nil
  then show ?case by simp
next
  case (Cons t ts)
  let ?h = "m u"
  let ?m1 = "m(u := (if length ?h < 10 then ?h @ [t] else ?h))"
  from Cons.prems have "\<forall>x\<in>set ?h. t - 60 < x" by simp
  then have c1: "check_rate_limit t u m = (length ?h < 10, ?m1)"
    by (rule check_rate_limit_in_window)
  have "\<forall>x\<in>set (?m1 u) \<union> set ts. \<forall>t\<in>set ts. t - 60 < x"
    using Cons.prems by auto
  from Cons.IH[of ?m1, OF this]
  have c2: "check_seq u ts ?m1 =
      (map (\<lambda>i. length (?m1 u) + i < 10) [0..<length ts],
       ?m1(u := ?m1 u @ take (10 - length (?m1 u)) ts))" .
  have m: "map (\<lambda>i. length ?h + i < 10) [0..<length (t # ts)] =
           (length ?h < 10) # map (\<lambda>i. length (?m1 u) + i < 10) [0..<length ts]"
    by (simp add: upt_conv_Cons map_Suc_upt[symmetric] del: upt_Suc)
  have h: "?m1(u := ?m1 u @ take (10 - length (?m1 u)) ts) =
           m(u := ?h @ take (10 - length ?h) (t # ts))"
  proof (cases "length ?h < 10")
    case True
    then obtain k where k: "10 - length ?h = Suc k" "9 - length ?h = k"
      by (cases "10 - length ?h") auto
    with True show ?thesis by (simp add: fun_eq_iff)
  next
    case False
    then show ?thesis by (simp add: fun_eq_iff)
  qed
  show ?case
    by (simp only: check_seq.simps c1 c2 prod.case m h)
qed

lemma check_seq_append:
  "check_seq u (xs @ ys) m =
     (case check_seq u xs m of
        (bs, m1) \<Rightarrow> (case check_seq u ys m1 of (cs, m2) \<Rightarrow> (bs @ cs, m2)))"
  by (induction xs arbitrary: m) (auto split: prod.splits)

lemma check_rate_limit_after_window:
  assumes "\<forall>x\<in>set (m u). x + 60 \<le> now" "length (m u) < 100"
  shows "check_rate_limit now u m =
           (True, m(u := dropWhile (\<lambda>ts. ts < now - 3600) (m u) @ [now]))"
proof -
  let ?p = "dropWhile (\<lambda>ts. ts < now - 3600) (m u)"
  have "set ?p \<subseteq> set (m u)" by (rule set_dropWhileD[THEN subsetI])
  with assms(1) have "\<forall>x\<in>set ?p. \<not> now - 60 < x" by fastforce
  then have f: "filter (\<lambda>ts. ts > now - 60) ?p = []" by (simp add: filter_empty_conv)
  have "length ?p \<le> length (m u)" by (rule length_dropWhile_le)
  with assms(2) have l: "\<not> 100 \<le> length ?p" by simp
  show ?thesis
    by (simp add: check_rate_limit_def Let_def f l)
qed

lemma first_eleven: "map (\<lambda>i. i < (10::nat)) [0..<11] = replicate 10 True @ [False]"
  by code_simp

text \<open>
  Claim C9. \<open>check_rate_limit\<close> first prunes from the front the events older than the long
  window (for a history in clock order these are exactly the events more than 3600 s old),
  then rejects without recording when the pruned history holds 10 or more events of the last
  60 s or 100 or more events in all, and otherwise appends the current reading and accepts.
  For a fresh identity and eleven calls whose clock readings lie within one 60 s window, the
  first ten are accepted and the eleventh is rejected; a call made 60 s or more after all of
  them is accepted again.
\<close>

theorem rate_limiter_check:
  "check_rate_limit now u m =
     (let pruned = dropWhile (\<lambda>ts. ts < now - 3600) (m u);
          ok = (length (filter (\<lambda>ts. now - 60 < ts) pruned) < 10 \<and> length pruned < 100)
      in (ok, m(u := (if ok then pruned @ [now] else pruned))))
   \<and> (sorted (m u) \<longrightarrow>
        dropWhile (\<lambda>ts. ts < now - 3600) (m u) = filter (\<lambda>ts. now - 3600 \<le> ts) (m u))
   \<and> (length ts = 11 \<longrightarrow> (\<forall>a\<in>set ts. \<forall>b\<in>set ts. b - 60 < a) \<longrightarrow>
        (\<forall>a\<in>set ts. a + 60 \<le> t') \<longrightarrow>
        check_seq v (ts @ [t']) RateLimiter =
          (replicate 10 True @ [False, True],
           RateLimiter(v := dropWhile (\<lambda>x. x < t' - 3600) (take 10 ts) @ [t'])))"
proof (intro conjI impI)
  show "check_rate_limit now u m =
     (let pruned = dropWhile (\<lambda>ts. ts < now - 3600) (m u);
          ok = (length (filter (\<lambda>ts. now - 60 < ts) pruned) < 10 \<and> length pruned < 100)
      in (ok, m(u := (if ok then pruned @ [now] else pruned))))"
    by (auto simp: check_rate_limit_def Let_def)
next
  assume "sorted (m u)"
  then show "dropWhile (\<lambda>ts. ts < now - 3600) (m u) = filter (\<lambda>ts. now - 3600 \<le> ts) (m u)"
    by (rule dropWhile_sorted_filter)
next
  assume len: "length ts = 11" and win: "\<forall>a\<in>set ts. \<forall>b\<in>set ts. b - 60 < a"
    and late: "\<forall>a\<in>set ts. a + 60 \<le> t'"
  let ?m0 = "RateLimiter :: 'b rate_limiter"
  let ?m1 = "?m0(v := take 10 ts)"
  have "\<forall>x\<in>set (?m0 v) \<union> set ts. \<forall>t\<in>set ts. t - 60 < x"
    using win by (simp add: RateLimiter_def)
  from check_seq_in_window[of ?m0 v ts, OF this]
  have s1: "check_seq v ts ?m0 = (replicate 10 True @ [False], ?m1)"
    using len first_eleven by (simp add: RateLimiter_def)
  have "\<forall>x\<in>set (?m1 v). x + 60 \<le> t'"
    using late by (auto dest: in_set_takeD)
  moreover have "length (?m1 v) < 100" by simp
  ultimately have s2: "check_rate_limit t' v ?m1 =
      (True, ?m1(v := dropWhile (\<lambda>x. x < t' - 3600) (?m1 v) @ [t']))"
    by (rule check_rate_limit_after_window)
  show "check_seq v (ts @ [t']) RateLimiter =
          (replicate 10 True @ [False, True],
           RateLimiter(v := dropWhile (\<lambda>x. x < t' - 3600) (take 10 ts) @ [t']))"
    by (simp add: check_seq_append s1 s2)
qed

theorem rate_limiter_check_witness:
  "check_rate_limit 4000 ''+31612345678'' (RateLimiter(''+31612345678'' := [100, 3990, 3995])) =
     (True, RateLimiter(''+31612345678'' := [3990, 3995, 4000]))
   \<and> check_seq ''+31612345678'' [1, 2, 3, 4, 5, 6, 7, 8, 9, 10, 11, 71] RateLimiter =
       ([True, True, True, True, True, True, True, True, True, True, False, True],
        RateLimiter(''+31612345678'' := [1, 2, 3, 4, 5, 6, 7, 8, 9, 10, 71]))"
  using rate_limiter_check [where now = 4000 and u = "''+31612345678''"
      and m = "RateLimiter(''+31612345678'' := [100, 3990, 3995])"
      and v = "''+31612345678''" and ts = "[1, 2, 3, 4, 5, 6, 7, 8, 9, 10, 11]" and t' = 71]
  by (simp add: eval_nat_numeral)

subsection \<open>CircuitBreaker: proofs\<close>

lemma call_closed_success:
  "state cb = Closed \<Longrightarrow> func w = (Inr v, w') \<Longrightarrow> call clock func cb w = (Inr v, cb, w')"
  by (simp add: call_def call_check_open_def call_try_def)

lemma call_closed_failure:
  "state cb = Closed \<Longrightarrow> func w = (Inl e, w') \<Longrightarrow>
   call clock func cb w =
     (Inl (FuncError e),
      cb\<lparr>failure_count := failure_count cb + 1, last_failure_time := Some (clock w'),
         state := (if failure_count cb + 1 \<ge> failure_threshold cb then Open else Closed)\<rparr>,
      w')"
  by (simp add: call_def call_check_open_def call_try_def Let_def)

lemma call_closed_cases:
  assumes "state cb = Closed" "failure_count cb < failure_threshold cb"
    "call clock func cb w = (r, cb', w')"
  shows "failure_threshold cb' = failure_threshold cb \<and>
         failure_count cb' = failure_count cb + int (failures [r]) \<and>
         state cb' = (if failure_count cb' \<ge> failure_threshold cb then Open else Closed)"
proof (cases "func w")
  case (Pair o1 w1)
  show ?thesis
  proof (cases o1)
    case (Inl e)
    with Pair assms call_closed_failure[of cb func w e w1 clock] show ?thesis
      by (auto simp: failures_def is_failure_def)
  next
    case (Inr v)
    with Pair assms call_closed_success[of cb func w v w1 clock] show ?thesis
      by (auto simp: failures_def is_failure_def)
  qed
qed

lemma failures_Cons: "failures (r # rs) = failures [r] + failures rs"
  by (simp add: failures_def)

lemma call_seq_closed:
  "state cb = Closed \<Longrightarrow>
   failure_count cb + int (failures (butlast rs)) < failure_threshold cb \<Longrightarrow>
   call_seq clock func n cb w = (rs, cb', w') \<Longrightarrow>
   failure_threshold cb' = failure_threshold cb \<and>
   failure_count cb' = failure_count cb + int (failures rs) \<and>
   state cb' = (if failure_count cb' \<ge> failure_threshold cb then Open else Closed)"
proof (induction n arbitrary: cb w rs cb' w')
  case 0
  then show ?case by (auto simp: failures_def)
next
  case (Suc n)
  obtain r cb1 w1 where c1: "call clock func cb w = (r, cb1, w1)"
    by (cases "call clock func cb w") auto
  obtain rs1 cb2 w2 where c2: "call_seq clock func n cb1 w1 = (rs1, cb2, w2)"
    by (cases "call_seq clock func n cb1 w1") auto
  from Suc.prems(3) c1 c2 have rs: "rs = r # rs1" and cb': "cb' = cb2" by auto
  from Suc.prems(2) have lt: "failure_count cb < failure_threshold cb"
    by linarith
  note step = call_closed_cases[OF Suc.prems(1) lt c1]
  show ?case
  proof (cases rs1)
    case Nil
    with c2 have "cb2 = cb1" by (cases n) (auto split: prod.splits)
    with step rs cb' Nil show ?thesis by simp
  next
    case (Cons a as)
    then have "butlast rs = r # butlast rs1" using rs by simp
    with Suc.prems(2) have b: "failure_count cb + int (failures [r]) + int (failures (butlast rs1)) < failure_threshold cb"
      using failures_Cons[of r "butlast rs1"] by simp
    with step have st1: "state cb1 = Closed" by (auto split: if_splits)
    from b step have b1: "failure_count cb1 + int (failures (butlast rs1)) < failure_threshold cb1"
      by simp
    from Suc.IH[OF st1 b1 c2] step rs cb' show ?thesis
      by (simp add: failures_Cons[of r rs1])
  qed
qed


lemma call_open_blocked:
  "state cb = Open \<Longrightarrow> last_failure_time cb = Some t \<Longrightarrow> \<not> clock w - t > timeout cb \<Longrightarrow>
   call clock func cb w = (Inl CircuitOpenError, cb, w)"
  by (simp add: call_def call_check_open_def)

lemma call_open_elapsed_gate:
  "state cb = Open \<Longrightarrow> last_failure_time cb = Some t \<Longrightarrow> clock w - t > timeout cb \<Longrightarrow>
   call_check_open clock cb w = Inr (cb\<lparr>state := HalfOpen\<rparr>)"
  by (simp add: call_check_open_def)

lemma call_try_half_open_success:
  "state cb = HalfOpen \<Longrightarrow> func w = (Inr v, w') \<Longrightarrow>
   call_try clock func cb w = (Inr v, cb\<lparr>state := Closed, failure_count := 0\<rparr>, w')"
  by (simp add: call_try_def)

lemma call_try_half_open_failure:
  "state cb = HalfOpen \<Longrightarrow> failure_threshold cb \<le> failure_count cb + 1 \<Longrightarrow>
   func w = (Inl e, w') \<Longrightarrow>
   call_try clock func cb w =
     (Inl (FuncError e),
      cb\<lparr>failure_count := failure_count cb + 1, last_failure_time := Some (clock w'),
         state := Open\<rparr>, w')"
  by (simp add: call_try_def Let_def)

lemma three_failures:
  assumes "func w0 = (Inl e1, w1)" "func w1 = (Inl e2, w2)" "func w2 = (Inl e3, w3)"
  shows "call_seq clock func 2 (CircuitBreaker 3 tmo) w0 =
           ([Inl (FuncError e1), Inl (FuncError e2)],
            (CircuitBreaker 3 tmo)\<lparr>failure_count := 2, last_failure_time := Some (clock w2)\<rparr>, w2)"
    and "call_seq clock func 3 (CircuitBreaker 3 tmo) w0 =
           ([Inl (FuncError e1), Inl (FuncError e2), Inl (FuncError e3)],
            (CircuitBreaker 3 tmo)\<lparr>failure_count := 3, last_failure_time := Some (clock w3),
               state := Open\<rparr>, w3)"
  using assms
  by (simp_all add: numeral_2_eq_2 numeral_3_eq_3 call_def call_check_open_def call_try_def
      CircuitBreaker_def Let_def)

lemma call_keeps_open_inv:
  assumes "state cb = Open \<or> state cb = HalfOpen \<longrightarrow> failure_threshold cb \<le> failure_count cb"
    and "call clock func cb w = (r, cb', w')"
  shows "state cb' \<noteq> HalfOpen \<and> (state cb' = Open \<longrightarrow> failure_threshold cb' \<le> failure_count cb')"
proof -
  obtain res w1 where f: "func w = (res, w1)" by (cases "func w") auto
  from assms f show ?thesis
    by (cases res; cases "state cb"; cases "last_failure_time cb")
       (auto simp: call_def call_check_open_def call_try_def Let_def split: if_splits)
qed

text \<open>
  Claim C7. For a breaker with failure threshold 3, starting Closed: after two failing calls
  the state is still Closed and the third failing call opens the circuit. Whatever the
  threshold: while the state is Open and the timeout has not elapsed since the last failure,
  \<open>call\<close> returns \<open>CircuitOpenError\<close> and leaves breaker and world as they were, for every
  operation, so the operation was not invoked. Once the timeout has elapsed, the call first
  moves Open to HalfOpen; a success then closes the circuit and clears the counter, a failure
  puts it back to Open. (An Open breaker reached through \<open>call\<close> has
  \<open>failure_threshold \<le> failure_count\<close>, see \<open>call_keeps_open_inv\<close>.)
\<close>

theorem circuit_breaker_threshold3:
  fixes func :: "'w \<Rightarrow> ('e + 'a) \<times> 'w"
  shows
  "(func w0 = (Inl e1, w1) \<longrightarrow> func w1 = (Inl e2, w2) \<longrightarrow> func w2 = (Inl e3, w3) \<longrightarrow>
      state (fst (snd (call_seq clock func 2 (CircuitBreaker 3 tmo) w0))) = Closed \<and>
      call_seq clock func 3 (CircuitBreaker 3 tmo) w0 =
        ([Inl (FuncError e1), Inl (FuncError e2), Inl (FuncError e3)],
         (CircuitBreaker 3 tmo)\<lparr>failure_count := 3, last_failure_time := Some (clock w3),
            state := Open\<rparr>, w3))
   \<and> (state cbA = Open \<longrightarrow> last_failure_time cbA = Some tA \<longrightarrow> \<not> clock wA - tA > timeout cbA \<longrightarrow>
        call clock func cbA wA = (Inl CircuitOpenError, cbA, wA))
   \<and> (state cbB = Open \<longrightarrow> last_failure_time cbB = Some tB \<longrightarrow> clock wB - tB > timeout cbB \<longrightarrow>
        func wB = (Inr v, wB') \<longrightarrow>
        call_check_open clock cbB wB = (Inr (cbB\<lparr>state := HalfOpen\<rparr>) :: 'e call_error + circuit_breaker) \<and>
        call clock func cbB wB = (Inr v, cbB\<lparr>state := Closed, failure_count := 0\<rparr>, wB'))
   \<and> (state cbC = Open \<longrightarrow> last_failure_time cbC = Some tC \<longrightarrow> clock wC - tC > timeout cbC \<longrightarrow>
        failure_threshold cbC \<le> failure_count cbC \<longrightarrow> func wC = (Inl e, wC') \<longrightarrow>
        call_check_open clock cbC wC = (Inr (cbC\<lparr>state := HalfOpen\<rparr>) :: 'e call_error + circuit_breaker) \<and>
        call clock func cbC wC =
          (Inl (FuncError e),
           cbC\<lparr>state := Open, failure_count := failure_count cbC + 1,
               last_failure_time := Some (clock wC')\<rparr>, wC'))"
proof (intro conjI impI)
  assume a: "func w0 = (Inl e1, w1)" "func w1 = (Inl e2, w2)" "func w2 = (Inl e3, w3)"
  show "state (fst (snd (call_seq clock func 2 (CircuitBreaker 3 tmo) w0))) = Closed"
    using three_failures(1)[OF a] by (simp add: CircuitBreaker_def)
  show "call_seq clock func 3 (CircuitBreaker 3 tmo) w0 =
        ([Inl (FuncError e1), Inl (FuncError e2), Inl (FuncError e3)],
         (CircuitBreaker 3 tmo)\<lparr>failure_count := 3, last_failure_time := Some (clock w3),
            state := Open\<rparr>, w3)"
    using three_failures(2)[OF a] by simp
next
  assume "state cbA = Open" "last_failure_time cbA = Some tA" "\<not> clock wA - tA > timeout cbA"
  then show "call clock func cbA wA = (Inl CircuitOpenError, cbA, wA)"
    by (rule call_open_blocked)
next
  assume b: "state cbB = Open" "last_failure_time cbB = Some tB" "clock wB - tB > timeout cbB"
    and f: "func wB = (Inr v, wB')"
  show "call_check_open clock cbB wB = (Inr (cbB\<lparr>state := HalfOpen\<rparr>) :: 'e call_error + circuit_breaker)"
    using b by (rule call_open_elapsed_gate)
  show "call clock func cbB wB = (Inr v, cbB\<lparr>state := Closed, failure_count := 0\<rparr>, wB')"
    using b f by (simp add: call_def call_check_open_def call_try_def)
next
  assume c: "state cbC = Open" "last_failure_time cbC = Some tC" "clock wC - tC > timeout cbC"
    and th: "failure_threshold cbC \<le> failure_count cbC" and f: "func wC = (Inl e, wC')"
  show "call_check_open clock cbC wC = (Inr (cbC\<lparr>state := HalfOpen\<rparr>) :: 'e call_error + circuit_breaker)"
    using c by (rule call_open_elapsed_gate)
  show "call clock func cbC wC =
          (Inl (FuncError e),
           cbC\<lparr>state := Open, failure_count := failure_count cbC + 1,
               last_failure_time := Some (clock wC')\<rparr>, wC')"
    using c th f by (simp add: call_def call_check_open_def call_try_def Let_def)
qed

theorem circuit_breaker_threshold3_witness:
  "call_seq fst (scripted ()) 3 (CircuitBreaker 3 60) (0, [Inl (), Inl (), Inl (), Inr (7::nat)]) =
     ([Inl (FuncError ()), Inl (FuncError ()), Inl (FuncError ())],
      \<lparr>failure_count = 3, failure_threshold = 3, timeout = 60, last_failure_time = Some 3,
        state = Open\<rparr>, (3, [Inr (7::nat)]))
   \<and> call fst (scripted ())
        \<lparr>failure_count = 3, failure_threshold = 3, timeout = 60, last_failure_time = Some 3,
          state = Open\<rparr> (10, [Inr (7::nat)]) =
       (Inl CircuitOpenError,
        \<lparr>failure_count = 3, failure_threshold = 3, timeout = 60, last_failure_time = Some 3,
          state = Open\<rparr>, (10, [Inr (7::nat)]))
   \<and> call fst (scripted ())
        \<lparr>failure_count = 3, failure_threshold = 3, timeout = 60, last_failure_time = Some 3,
          state = Open\<rparr> (64, [Inr (7::nat)]) =
       (Inr (7::nat),
        \<lparr>failure_count = 0, failure_threshold = 3, timeout = 60, last_failure_time = Some 3,
          state = Closed\<rparr>, (65, []))
   \<and> call fst (scripted ())
        \<lparr>failure_count = 3, failure_threshold = 3, timeout = 60, last_failure_time = Some 3,
          state = Open\<rparr> (64, [Inl ()] :: (unit + nat) list) =
       (Inl (FuncError ()),
        \<lparr>failure_count = 4, failure_threshold = 3, timeout = 60, last_failure_time = Some 65,
          state = Open\<rparr>, (65, []))"
  using circuit_breaker_threshold3 [where func = "scripted ()" and clock = fst and tmo = 60
      and ?w0.0 = "(0, [Inl (), Inl (), Inl (), Inr (7::nat)])"
      and ?w1.0 = "(1, [Inl (), Inl (), Inr (7::nat)])" and ?w2.0 = "(2, [Inl (), Inr (7::nat)])"
      and ?w3.0 = "(3, [Inr (7::nat)])" and ?e1.0 = "()" and ?e2.0 = "()" and ?e3.0 = "()"
      and cbA = "\<lparr>failure_count = 3, failure_threshold = 3, timeout = 60,
                  last_failure_time = Some 3, state = Open\<rparr>"
      and tA = 3 and wA = "(10, [Inr (7::nat)])"
      and cbB = "\<lparr>failure_count = 3, failure_threshold = 3, timeout = 60,
                  last_failure_time = Some 3, state = Open\<rparr>"
      and tB = 3 and wB = "(64, [Inr (7::nat)])" and v = "7::nat" and wB' = "(65, [])"
      and cbC = "\<lparr>failure_count = 3, failure_threshold = 3, timeout = 60,
                  last_failure_time = Some 3, state = Open\<rparr>"
      and tC = 3 and wC = "(64, [Inl ()])" and e = "()" and wC' = "(65, [])"]
  by (simp add: CircuitBreaker_def)

text \<open>
  Claim C10. A successful call while Closed returns the breaker unchanged, so
  \<open>failure_count\<close> is not reset. A positive counter becomes zero only in a call that
  passed through HalfOpen and succeeded. Hence, from a Closed breaker with counter zero (as
  after construction or after a HalfOpen success), any run of calls in which the failures
  before the last call stay below the threshold ends with the counter equal to the total
  number of failures, however many successes lie between them, and the circuit is Open
  exactly when that number has reached the threshold.
\<close>

theorem closed_success_keeps_count:
  fixes func :: "'w \<Rightarrow> ('e + 'a) \<times> 'w"
  shows
  "(state cb = Closed \<longrightarrow> func w = (Inr v, w') \<longrightarrow> call clock func cb w = (Inr v, cb, w'))
   \<and> (call clock func cbA wA = (r, cbA', wA') \<longrightarrow> failure_count cbA > 0 \<longrightarrow>
        failure_count cbA' = 0 \<longrightarrow>
        (\<exists>cbh x. call_check_open clock cbA wA = (Inr cbh :: 'e call_error + circuit_breaker) \<and>
                 state cbh = HalfOpen \<and> r = Inr x))
   \<and> (state cbB = Closed \<longrightarrow> failure_count cbB = 0 \<longrightarrow>
        call_seq clock func n cbB wB = (rs, cbB', wB') \<longrightarrow>
        int (failures (butlast rs)) < failure_threshold cbB \<longrightarrow>
        failure_count cbB' = int (failures rs) \<and>
        state cbB' = (if failure_threshold cbB \<le> int (failures rs) then Open else Closed))"
proof (intro conjI impI)
  assume "state cb = Closed" "func w = (Inr v, w')"
  then show "call clock func cb w = (Inr v, cb, w')" by (rule call_closed_success)
next
  assume c: "call clock func cbA wA = (r, cbA', wA')" and p: "failure_count cbA > 0"
    and z: "failure_count cbA' = 0"
  obtain res w1 where f: "func wA = (res, w1)" by (cases "func wA") auto
  from c p z f
  show "\<exists>cbh x. call_check_open clock cbA wA = (Inr cbh :: 'e call_error + circuit_breaker) \<and>
                 state cbh = HalfOpen \<and> r = Inr x"
    by (cases res; cases "state cbA"; cases "last_failure_time cbA")
       (auto simp: call_def call_check_open_def call_try_def Let_def split: if_splits)
next
  assume a: "state cbB = Closed" "failure_count cbB = 0"
    "call_seq clock func n cbB wB = (rs, cbB', wB')"
    "int (failures (butlast rs)) < failure_threshold cbB"
  from call_seq_closed[OF a(1) _ a(3)] a(2,4)
  have r: "failure_count cbB' = int (failures rs) \<and>
           state cbB' = (if failure_threshold cbB \<le> failure_count cbB' then Open else Closed)"
    by simp
  from r show "failure_count cbB' = int (failures rs)" by simp
  from r show "state cbB' = (if failure_threshold cbB \<le> int (failures rs) then Open else Closed)"
    by simp
qed

theorem closed_success_keeps_count_witness:
  "call fst (scripted ()) (CircuitBreaker 3 60) (0, [Inr (5::nat)]) = (Inr (5::nat), CircuitBreaker 3 60, (1, []))
   \<and> call_check_open fst
        \<lparr>failure_count = 3, failure_threshold = 3, timeout = 60, last_failure_time = Some 3,
          state = Open\<rparr> (64 :: real, [Inr (7::nat)] :: (unit + nat) list) =
       (Inr \<lparr>failure_count = 3, failure_threshold = 3, timeout = 60, last_failure_time = Some 3,
          state = HalfOpen\<rparr> :: unit call_error + circuit_breaker)
   \<and> call_seq fst (scripted ()) 6 (CircuitBreaker 3 60)
         (0, [Inl (), Inr (1::nat), Inl (), Inr (2::nat), Inr (3::nat), Inl ()]) =
       ([Inl (FuncError ()), Inr (1::nat), Inl (FuncError ()), Inr (2::nat), Inr (3::nat), Inl (FuncError ())],
        \<lparr>failure_count = 3, failure_threshold = 3, timeout = 60, last_failure_time = Some 6,
          state = Open\<rparr>, (6, []))"
  using closed_success_keeps_count [where func = "scripted ()" and clock = fst
      and cb = "CircuitBreaker 3 60" and w = "(0, [Inr (5::nat)])" and v = "5::nat" and w' = "(1, [])"
      and cbA = "\<lparr>failure_count = 3, failure_threshold = 3, timeout = 60,
                  last_failure_time = Some 3, state = Open\<rparr>"
      and wA = "(64, [Inr (7::nat)])" and r = "Inr (7::nat)"
      and cbA' = "\<lparr>failure_count = 0, failure_threshold = 3, timeout = 60,
                  last_failure_time = Some 3, state = Closed\<rparr>"
      and wA' = "(65, [])"
      and cbB = "CircuitBreaker 3 60" and n = 6
      and wB = "(0, [Inl (), Inr (1::nat), Inl (), Inr (2::nat), Inr (3::nat), Inl ()])"
      and rs = "[Inl (FuncError ()), Inr (1::nat), Inl (FuncError ()), Inr (2::nat), Inr (3::nat), Inl (FuncError ())]"
      and cbB' = "\<lparr>failure_count = 3, failure_threshold = 3, timeout = 60,
                  last_failure_time = Some 6, state = Open\<rparr>"
      and wB' = "(6, [])"]
  by (simp add: CircuitBreaker_def call_def call_check_open_def call_try_def Let_def
      eval_nat_numeral failures_def is_failure_def)

subsection \<open>The message pipeline: proofs\<close>

lemma get_rag_response_stages:
  "get_rag_response e m sender convs = (stages, r, convs1) \<Longrightarrow>
   stages = [Sanitized False] \<or> stages = [Sanitized True, ThreatChecked True] \<or>
   stages = [Sanitized True, ThreatChecked False, Generated]"
  by (auto simp: get_rag_response_def split: sum.splits prod.splits bool.splits)

text \<open>
  Claim C3, as stated, fails: a message from an activated sender that the sanitizer rejects
  has passed the rate limiter first, and its event is recorded.
\<close>

theorem rate_limit_before_sanitize:
  "handle_message plain_env 100 (str ''+31612345678'') (str ''a;rm -rf'') active_bot =
     ([RateChecked True, Sanitized False], Some (InvalidInput DangerousPattern),
      active_bot\<lparr>rate_limiter := RateLimiter(str ''+31612345678'' := [100])\<rparr>)"
  by (simp add: handle_message_def get_rag_response_def check_rate_limit_def RateLimiter_def
      active_bot_def plain_env_def sanitize_message_def strip_def isspace_def str_def
      control_char_def dangerous_patterns_def Let_def)

lemma check_rate_limit_accept:
  "check_rate_limit now u m = (True, m1) \<Longrightarrow>
   m1 u = dropWhile (\<lambda>ts. ts < now - 3600) (m u) @ [now]"
  by (auto simp: check_rate_limit_def Let_def split: if_splits)

text \<open>
  Claim C3, amended. A message that is empty, is the passphrase or comes from a sender who
  is not activated goes through no stage and leaves the rate limiter as it was. For every
  other message the rate limiter is consulted first. When it denies, nothing else runs and
  the reply is the rate-limit notice. When it accepts, the event is recorded, and only then
  does a message that is not a command go through sanitization and, if that passes, threat
  detection: Received, RateChecked, Sanitized, ThreatChecked. A message that the sanitizer or
  the threat detector rejects has therefore consumed a slot of the rate limiter.
\<close>

theorem pipeline_stage_order:
  "(msg \<noteq> [] \<longrightarrow> strip msg \<noteq> passphrase e \<longrightarrow> sender \<in> activated_users st \<longrightarrow>
      handle_message e now sender msg st = (stages, r, st1) \<longrightarrow>
      (\<exists>rest. stages = RateChecked (fst (check_rate_limit now sender (rate_limiter st))) # rest \<and>
         (rest = [] \<or> rest = [Sanitized False] \<or> rest = [Sanitized True, ThreatChecked True] \<or>
          rest = [Sanitized True, ThreatChecked False, Generated]) \<and>
         (\<not> fst (check_rate_limit now sender (rate_limiter st)) \<longrightarrow>
            rest = [] \<and> r = Some RateLimitNotice))
      \<and> rate_limiter st1 = snd (check_rate_limit now sender (rate_limiter st))
      \<and> (fst (check_rate_limit now sender (rate_limiter st)) \<longrightarrow>
           rate_limiter st1 sender =
             dropWhile (\<lambda>ts. ts < now - 3600) (rate_limiter st sender) @ [now]))
   \<and> (msgA = [] \<or> strip msgA = passphrase e \<or> senderA \<notin> activated_users stA \<longrightarrow>
        handle_message e nowA senderA msgA stA = (stagesA, rA, stA1) \<longrightarrow>
        stagesA = [] \<and> rate_limiter stA1 = rate_limiter stA)"
proof (intro conjI impI)
  assume a: "msg \<noteq> []" "strip msg \<noteq> passphrase e" "sender \<in> activated_users st"
    and h: "handle_message e now sender msg st = (stages, r, st1)"
  obtain ok lim where c: "check_rate_limit now sender (rate_limiter st) = (ok, lim)"
    by (cases "check_rate_limit now sender (rate_limiter st)") auto
  obtain gs gr gc where g: "get_rag_response e msg sender (user_conversations st) = (gs, gr, gc)"
    by (cases "get_rag_response e msg sender (user_conversations st)") auto
  note gst = get_rag_response_stages[OF g]
  show "\<exists>rest. stages = RateChecked (fst (check_rate_limit now sender (rate_limiter st))) # rest \<and>
         (rest = [] \<or> rest = [Sanitized False] \<or> rest = [Sanitized True, ThreatChecked True] \<or>
          rest = [Sanitized True, ThreatChecked False, Generated]) \<and>
         (\<not> fst (check_rate_limit now sender (rate_limiter st)) \<longrightarrow>
            rest = [] \<and> r = Some RateLimitNotice)"
    using a h c g gst
    by (cases ok) (auto simp: handle_message_def Let_def split: if_splits)
  show l: "rate_limiter st1 = snd (check_rate_limit now sender (rate_limiter st))"
    using a h c g
    by (cases ok) (auto simp: handle_message_def Let_def split: if_splits)
  assume "fst (check_rate_limit now sender (rate_limiter st))"
  with c have "check_rate_limit now sender (rate_limiter st) = (True, lim)" by simp
  from check_rate_limit_accept[OF this] l c
  show "rate_limiter st1 sender =
          dropWhile (\<lambda>ts. ts < now - 3600) (rate_limiter st sender) @ [now]"
    by simp
next
  assume "msgA = [] \<or> strip msgA = passphrase e \<or> senderA \<notin> activated_users stA"
    and "handle_message e nowA senderA msgA stA = (stagesA, rA, stA1)"
  then show "stagesA = []" "rate_limiter stA1 = rate_limiter stA"
    by (auto simp: handle_message_def split: if_splits)
qed

theorem pipeline_stage_order_witness:
  "handle_message plain_env 100 (str ''+31612345678'') (str ''<|x|>'') active_bot =
     ([RateChecked True, Sanitized True, ThreatChecked False, Generated],
      Some (Answer (str ''<|x|>'')),
      active_bot\<lparr>rate_limiter := RateLimiter(str ''+31612345678'' := [100])\<rparr>)
   \<and> rate_limiter (active_bot\<lparr>rate_limiter := RateLimiter(str ''+31612345678'' := [100])\<rparr>)
        (str ''+31612345678'') = [100]
   \<and> handle_message plain_env 100 (str ''+4400'') (str ''hello'') active_bot =
       ([], None, active_bot)"
proof -
  have h1: "handle_message plain_env 100 (str ''+31612345678'') (str ''<|x|>'') active_bot =
     ([RateChecked True, Sanitized True, ThreatChecked False, Generated],
      Some (Answer (str ''<|x|>'')),
      active_bot\<lparr>rate_limiter := RateLimiter(str ''+31612345678'' := [100])\<rparr>)"
    by (simp add: handle_message_def get_rag_response_def check_rate_limit_def RateLimiter_def
        active_bot_def plain_env_def sanitize_message_def strip_def isspace_def str_def
        control_char_def dangerous_patterns_def Let_def)
  have h2: "handle_message plain_env 100 (str ''+4400'') (str ''hello'') active_bot =
       ([], None, active_bot)"
    by (simp add: handle_message_def active_bot_def plain_env_def strip_def isspace_def str_def)
  have a: "str ''<|x|>'' \<noteq> []" "strip (str ''<|x|>'') \<noteq> passphrase plain_env"
    "str ''+31612345678'' \<in> activated_users active_bot"
    "str ''+4400'' \<notin> activated_users active_bot"
    by (simp_all add: str_def strip_def isspace_def plain_env_def active_bot_def)
  from pipeline_stage_order [where e = plain_env and now = 100 and sender = "str ''+31612345678''"
      and msg = "str ''<|x|>''" and st = active_bot
      and stages = "[RateChecked True, Sanitized True, ThreatChecked False, Generated]"
      and r = "Some (Answer (str ''<|x|>''))"
      and ?st1.0 = "active_bot\<lparr>rate_limiter := RateLimiter(str ''+31612345678'' := [100])\<rparr>"
      and msgA = "str ''hello''" and senderA = "str ''+4400''" and stA = active_bot
      and nowA = 100 and stagesA = "[]" and rA = None and ?stA1.0 = active_bot]
    a h1 h2
  show ?thesis
    by (simp add: check_rate_limit_def RateLimiter_def active_bot_def Let_def)
qed

end
